theory Spec2Isabelle
  imports Main "HOL-Library.Multiset"
begin

section \<open>The thread pool as a transition system\<close>

text \<open>
  The repository holds three revisions of \<^verbatim>\<open>ThreadPool\<close>:
  \<^item> \<^verbatim>\<open>src/thread_pool.cpp\<close>: the workers poll the queue and yield when it is empty;
    \<^verbatim>\<open>stop\<close> only clears the flag, \<^verbatim>\<open>addTask\<close> only pushes;
  \<^item> \<^verbatim>\<open>src/unnamed/part_000\<close>: the workers wait on \<^verbatim>\<open>thread_spin_cv_\<close>;
    \<^verbatim>\<open>stop\<close> clears the flag without the mutex, then \<^verbatim>\<open>notify_all\<close>; after the
    wait a worker tests \<^verbatim>\<open>!tasks_pool_.empty()\<close>;
  \<^item> \<^verbatim>\<open>src/unnamed/part_001\<close>: as part_000, but \<^verbatim>\<open>stop\<close> clears the flag under
    \<^verbatim>\<open>guardian_\<close> and after the wait a worker tests \<^verbatim>\<open>alive_\<close>.
  \<^verbatim>\<open>start\<close>, \<^verbatim>\<open>joinAll\<close>, \<^verbatim>\<open>clear\<close>, \<^verbatim>\<open>clean_up\<close>, \<^verbatim>\<open>waitForIdle\<close> and the
  observers are the same text in the three files.

  The threads of the program are interleaved statement by statement: every step below is
  one statement of one thread, or one critical section that a thread runs from
  \<^verbatim>\<open>lock\<close> to \<^verbatim>\<open>unlock\<close> while touching only data that the mutex guards. A step
  that the thread cannot take now (the mutex is held by another thread, the thread is
  parked in the condition variable, \<^verbatim>\<open>join\<close> has to wait) has no successor state.
\<close>

datatype revision =
    Yielding    \<comment> \<open>\<^verbatim>\<open>src/thread_pool.cpp\<close>\<close>
  | Notifying   \<comment> \<open>\<^verbatim>\<open>src/unnamed/part_000\<close>\<close>
  | Guarded     \<comment> \<open>\<^verbatim>\<open>src/unnamed/part_001\<close>\<close>

text \<open>A task is known to the pool by its address only (\<^verbatim>\<open>Task *\<close>).\<close>

type_synonym task = nat

datatype STOP_POLICY = SYNC | ASYNC

datatype STATUS = UP | DOWN

text \<open>
  Where a worker thread stands in \<^verbatim>\<open>spin()\<close>. The local variable \<^verbatim>\<open>task\<close> is
  carried by the positions at which it is live.
\<close>

datatype spin_pc =
    Head            \<comment> \<open>at \<^verbatim>\<open>while(alive_)\<close>\<close>
  | Lock            \<comment> \<open>about to acquire \<^verbatim>\<open>guardian_\<close>\<close>
  | Pred            \<comment> \<open>holds the mutex, evaluates the predicate of \<^verbatim>\<open>wait(lk, pred)\<close>\<close>
  | Block           \<comment> \<open>holds the mutex, the predicate was false: enters \<^verbatim>\<open>wait(lk)\<close>\<close>
  | Parked          \<comment> \<open>blocked in the condition variable, mutex released\<close>
  | Woken           \<comment> \<open>unblocked, has to reacquire the mutex\<close>
  | Branch          \<comment> \<open>holds the mutex, at the \<^verbatim>\<open>if\<close> that guards the dequeue\<close>
  | Claimed task    \<comment> \<open>dequeued, mutex released, about to count the task\<close>
  | Running task    \<comment> \<open>counted, inside \<^verbatim>\<open>task->run()\<close>\<close>
  | Finished        \<comment> \<open>\<^verbatim>\<open>run()\<close> has returned, about to uncount\<close>
  | Exited          \<comment> \<open>\<^verbatim>\<open>spin()\<close> has returned; the thread can be joined\<close>
  | Faulted         \<comment> \<open>called \<^verbatim>\<open>front()\<close> on an empty queue (undefined behaviour)\<close>

text \<open>
  Where the thread that drives the pool stands inside \<^verbatim>\<open>start\<close>, \<^verbatim>\<open>stop\<close> or
  \<^verbatim>\<open>joinAll\<close>. These three functions use \<^verbatim>\<open>threads_pool_\<close> without any lock, so
  they are called from one thread at a time.
\<close>

datatype call_pc =
    Idle                      \<comment> \<open>no call in progress\<close>
  | Start_clean               \<comment> \<open>\<^verbatim>\<open>start\<close>: inside \<^verbatim>\<open>clean_up()\<close>\<close>
  | Start_alive               \<comment> \<open>\<^verbatim>\<open>start\<close>: at \<^verbatim>\<open>alive_ = true\<close>\<close>
  | Start_spawn nat           \<comment> \<open>\<^verbatim>\<open>start\<close>: at the loop test with this \<^verbatim>\<open>i\<close>\<close>
  | Stop_notify STOP_POLICY   \<comment> \<open>\<^verbatim>\<open>stop\<close>: at \<^verbatim>\<open>notify_all()\<close>\<close>
  | Stop_clean                \<comment> \<open>\<^verbatim>\<open>stop\<close>: inside \<^verbatim>\<open>clean_up()\<close>\<close>
  | Join_clean                \<comment> \<open>\<^verbatim>\<open>joinAll\<close>: inside \<^verbatim>\<open>clean_up()\<close>\<close>

text \<open>Where a thread that called \<^verbatim>\<open>waitForIdle()\<close> stands.\<close>

datatype wait_pc =
    Away            \<comment> \<open>not in \<^verbatim>\<open>waitForIdle\<close>\<close>
  | Test_pending    \<comment> \<open>about to evaluate \<^verbatim>\<open>is_pending()\<close>\<close>
  | Test_running    \<comment> \<open>\<^verbatim>\<open>is_pending()\<close> was false, about to evaluate \<^verbatim>\<open>is_running()\<close>\<close>
  | Returned        \<comment> \<open>\<^verbatim>\<open>waitForIdle\<close> has returned\<close>

text \<open>
  The members of the class. \<^verbatim>\<open>guardian_\<close> holds the index of the worker that owns
  the mutex across steps; the other users of the mutex acquire and release it inside one
  step. \<^verbatim>\<open>threads_pool_\<close> holds, for each thread of the vector, where it stands.
  \<^verbatim>\<open>running_tasks_count_\<close> is a \<^verbatim>\<open>std::size_t\<close> that is only decremented after it
  was incremented by the same worker (lemma \<open>dec_never_wraps\<close> below: it equals the
  number of workers between the two), so it never wraps and is modelled by \<open>nat\<close>.
  \<^verbatim>\<open>rtc_guardian_\<close> (thread_pool.cpp, part_000) is held for one read or one update of
  the counter only, which is one step here.
\<close>

record pool =
  threads_count :: nat
  tasks_pool :: "task list"
  guardian :: "nat option"
  threads_pool :: "spin_pc list"
  alive :: bool
  running_tasks_count :: nat
  caller :: call_pc
  waiter :: wait_pc

text \<open>The constructor: \<^verbatim>\<open>threads_count_(threads_count), alive_(false), running_tasks_count_(0)\<close>.\<close>

definition ThreadPool :: "nat \<Rightarrow> pool" where
  "ThreadPool n =
     \<lparr>threads_count = n, tasks_pool = [], guardian = None, threads_pool = [],
      alive = False, running_tasks_count = 0, caller = Idle, waiter = Away\<rparr>"

subsection \<open>Observers\<close>

definition status :: "pool \<Rightarrow> STATUS" where
  "status s = (if alive s then UP else DOWN)"

definition is_pending :: "pool \<Rightarrow> bool" where
  "is_pending s = (tasks_pool s \<noteq> [])"

definition pending :: "pool \<Rightarrow> nat" where
  "pending s = length (tasks_pool s)"

definition is_running :: "pool \<Rightarrow> bool" where
  "is_running s = (running_tasks_count s \<noteq> 0)"

definition running :: "pool \<Rightarrow> nat" where
  "running s = running_tasks_count s"

subsection \<open>The condition variable\<close>

text \<open>The indices of the workers blocked in \<^verbatim>\<open>thread_spin_cv_\<close>.\<close>

definition parked :: "spin_pc list \<Rightarrow> nat list" where
  "parked ws = filter (\<lambda>i. ws ! i = Parked) [0..<length ws]"

definition wake :: "spin_pc \<Rightarrow> spin_pc" where
  "wake p = (if p = Parked then Woken else p)"

definition notify_all :: "spin_pc list \<Rightarrow> spin_pc list" where
  "notify_all ws = map wake ws"

text \<open>
  \<^verbatim>\<open>notify_one()\<close> unblocks one of the waiting threads, if there is one; which one is
  not determined, so the choice \<open>j\<close> is a parameter of the step.
\<close>

definition notify_one :: "nat \<Rightarrow> spin_pc list \<Rightarrow> spin_pc list" where
  "notify_one j ws =
     (case parked ws of
        [] \<Rightarrow> ws
      | k # ks \<Rightarrow> ws[(k # ks) ! (j mod length (k # ks)) := Woken])"

subsection \<open>The worker: \<^verbatim>\<open>spin()\<close>\<close>

definition at :: "nat \<Rightarrow> spin_pc \<Rightarrow> pool \<Rightarrow> pool" where
  "at i p s = s\<lparr>threads_pool := (threads_pool s)[i := p]\<rparr>"

text \<open>
  The \<^verbatim>\<open>if\<close> after the mutex was taken (thread_pool.cpp) or after the wait (part_000,
  part_001), with the mutex held. \<^verbatim>\<open>task = front(); pop(); unlock()\<close> is one critical
  section; leaving the block without a dequeue releases the mutex and goes back to the
  loop test.
\<close>

definition dequeue :: "nat \<Rightarrow> pool \<Rightarrow> pool" where
  "dequeue i s =
     (case tasks_pool s of
        [] \<Rightarrow> at i Faulted s
      | t # q \<Rightarrow> at i (Claimed t) (s\<lparr>tasks_pool := q, guardian := None\<rparr>))"

definition leave :: "nat \<Rightarrow> pool \<Rightarrow> pool" where
  "leave i s = at i Head (s\<lparr>guardian := None\<rparr>)"

fun branch :: "revision \<Rightarrow> nat \<Rightarrow> pool \<Rightarrow> pool" where
  "branch Yielding i s = (if tasks_pool s = [] then leave i s else dequeue i s)"
| "branch Notifying i s = (if tasks_pool s \<noteq> [] then dequeue i s else leave i s)"
| "branch Guarded i s = (if alive s then dequeue i s else leave i s)"

text \<open>
  \<^verbatim>\<open>inc()\<close> and \<^verbatim>\<open>dec()\<close> of thread_pool.cpp and part_000; part_001 writes
  \<^verbatim>\<open>++running_tasks_count_\<close> and \<^verbatim>\<open>--running_tasks_count_\<close> on the atomic counter
  in their place.
\<close>

definition inc :: "pool \<Rightarrow> pool" where
  "inc s = s\<lparr>running_tasks_count := running_tasks_count s + 1\<rparr>"

definition dec :: "pool \<Rightarrow> pool" where
  "dec s = s\<lparr>running_tasks_count := running_tasks_count s - 1\<rparr>"

definition spin :: "revision \<Rightarrow> nat \<Rightarrow> pool \<Rightarrow> pool option" where
  "spin rv i s =
     (if length (threads_pool s) \<le> i then None
      else case threads_pool s ! i of
        Head \<Rightarrow> Some (at i (if alive s then Lock else Exited) s)
      | Lock \<Rightarrow>
          (if guardian s = None
           then Some (at i (if rv = Yielding then Branch else Pred) (s\<lparr>guardian := Some i\<rparr>))
           else None)
      | Pred \<Rightarrow> Some (at i (if \<not> alive s \<or> tasks_pool s \<noteq> [] then Branch else Block) s)
      | Block \<Rightarrow> Some (at i Parked (s\<lparr>guardian := None\<rparr>))
      | Parked \<Rightarrow> None
      | Woken \<Rightarrow>
          (if guardian s = None then Some (at i Pred (s\<lparr>guardian := Some i\<rparr>)) else None)
      | Branch \<Rightarrow> Some (branch rv i s)
      | Claimed t \<Rightarrow> Some (at i (Running t) (inc s))
      | Running t \<Rightarrow> Some (at i Finished s)
      | Finished \<Rightarrow> Some (at i Head (dec s))
      | Exited \<Rightarrow> None
      | Faulted \<Rightarrow> None)"

text \<open>A condition variable may unblock a waiting thread without any notification.\<close>

definition spurious :: "nat \<Rightarrow> pool \<Rightarrow> pool option" where
  "spurious i s =
     (if i < length (threads_pool s) \<and> threads_pool s ! i = Parked
      then Some (at i Woken s) else None)"

subsection \<open>\<^verbatim>\<open>start\<close>, \<^verbatim>\<open>stop\<close>, \<^verbatim>\<open>joinAll\<close>\<close>

text \<open>
  \<^verbatim>\<open>clean_up()\<close> joins every thread of the vector, then clears the vector. Every thread
  of the vector is joinable (it was built with a function and is joined nowhere else),
  \<^verbatim>\<open>join()\<close> returns once the thread has left \<^verbatim>\<open>spin()\<close> and has no other effect on the
  pool, so the loop gets through exactly when all the threads have exited.
\<close>

definition clean_up :: "pool \<Rightarrow> pool option" where
  "clean_up s =
     (if list_all (\<lambda>p. p = Exited) (threads_pool s)
      then Some (s\<lparr>threads_pool := []\<rparr>) else None)"

datatype call = Start | Stop STOP_POLICY | JoinAll

definition after_flag :: "STOP_POLICY \<Rightarrow> pool \<Rightarrow> call_pc" where
  "after_flag sp s = (if sp = SYNC \<and> threads_pool s \<noteq> [] then Stop_clean else Idle)"

text \<open>
  Entering \<^verbatim>\<open>start\<close>, \<^verbatim>\<open>stop\<close> or \<^verbatim>\<open>joinAll\<close> runs the function up to its
  first statement that other threads can see, and \<open>caller\<close> records where it goes on;
  \<open>control\<close> below runs the rest, one statement at a time.

  \<^verbatim>\<open>start\<close>: \<^verbatim>\<open>if(!alive_)\<close>, then \<^verbatim>\<open>if(!threads_pool_.empty()) clean_up()\<close>.
\<close>

definition start :: "pool \<Rightarrow> pool" where
  "start s =
     (if alive s then s
      else s\<lparr>caller := (if threads_pool s \<noteq> [] then Start_clean else Start_alive)\<rparr>)"

text \<open>
  \<^verbatim>\<open>stop\<close>: \<^verbatim>\<open>alive_ = false\<close>, which part_001 alone runs under \<^verbatim>\<open>guardian_\<close>;
  then \<^verbatim>\<open>notify_all()\<close> in part_000 and part_001, and the test
  \<^verbatim>\<open>sp == SYNC && !threads_pool_.empty()\<close> at once in thread_pool.cpp.
\<close>

fun stop :: "revision \<Rightarrow> STOP_POLICY \<Rightarrow> pool \<Rightarrow> pool option" where
  "stop Yielding sp s = Some (s\<lparr>alive := False, caller := after_flag sp s\<rparr>)"
| "stop Notifying sp s = Some (s\<lparr>alive := False, caller := Stop_notify sp\<rparr>)"
| "stop Guarded sp s =
     (if guardian s = None then Some (s\<lparr>alive := False, caller := Stop_notify sp\<rparr>) else None)"

text \<open>\<^verbatim>\<open>joinAll\<close>: \<^verbatim>\<open>if(!alive_ && !threads_pool_.empty()) clean_up()\<close>.\<close>

definition joinAll :: "pool \<Rightarrow> pool" where
  "joinAll s = (if \<not> alive s \<and> threads_pool s \<noteq> [] then s\<lparr>caller := Join_clean\<rparr> else s)"

fun invoke :: "revision \<Rightarrow> call \<Rightarrow> pool \<Rightarrow> pool option" where
  "invoke rv Start s = Some (start s)"
| "invoke rv (Stop sp) s = stop rv sp s"
| "invoke rv JoinAll s = Some (joinAll s)"

text \<open>
  The rest of the call in progress. \<^verbatim>\<open>start\<close> after \<^verbatim>\<open>clean_up()\<close>:
  \<^verbatim>\<open>alive_ = true\<close>, then the loop that pushes \<^verbatim>\<open>threads_count_\<close> threads, each
  started in \<^verbatim>\<open>spin()\<close>. \<^verbatim>\<open>stop\<close> after the flag: \<^verbatim>\<open>notify_all()\<close>, then
  \<^verbatim>\<open>clean_up()\<close> if the policy is \<^verbatim>\<open>SYNC\<close> and the vector is not empty. The
  destructor is \<^verbatim>\<open>stop(SYNC)\<close>.
\<close>

definition control :: "pool \<Rightarrow> pool option" where
  "control s =
     (case caller s of
        Idle \<Rightarrow> None
      | Start_clean \<Rightarrow> map_option (caller_update (\<lambda>_. Start_alive)) (clean_up s)
      | Start_alive \<Rightarrow> Some (s\<lparr>alive := True, caller := Start_spawn 0\<rparr>)
      | Start_spawn i \<Rightarrow>
          Some (if i < threads_count s
                then s\<lparr>threads_pool := threads_pool s @ [Head], caller := Start_spawn (Suc i)\<rparr>
                else s\<lparr>caller := Idle\<rparr>)
      | Stop_notify sp \<Rightarrow>
          Some (s\<lparr>threads_pool := notify_all (threads_pool s), caller := after_flag sp s\<rparr>)
      | Stop_clean \<Rightarrow> map_option (caller_update (\<lambda>_. Idle)) (clean_up s)
      | Join_clean \<Rightarrow> map_option (caller_update (\<lambda>_. Idle)) (clean_up s))"

subsection \<open>\<^verbatim>\<open>addTask\<close>, \<^verbatim>\<open>clear\<close>, \<^verbatim>\<open>waitForIdle\<close>\<close>

definition addTask :: "revision \<Rightarrow> task \<Rightarrow> nat \<Rightarrow> pool \<Rightarrow> pool option" where
  "addTask rv t j s =
     (if guardian s = None
      then Some (s\<lparr>tasks_pool := tasks_pool s @ [t],
                   threads_pool := (if rv \<noteq> Yielding \<and> alive s
                                    then notify_one j (threads_pool s)
                                    else threads_pool s)\<rparr>)
      else None)"

definition clear :: "pool \<Rightarrow> pool option" where
  "clear s = (if guardian s = None then Some (s\<lparr>tasks_pool := []\<rparr>) else None)"

text \<open>
  \<^verbatim>\<open>while(is_pending() || is_running()) yield();\<close> The two operands are two calls:
  \<^verbatim>\<open>is_pending()\<close> takes \<^verbatim>\<open>guardian_\<close>, and \<^verbatim>\<open>is_running()\<close> is only called once
  \<^verbatim>\<open>is_pending()\<close> has returned false.
\<close>

definition enter_wait :: "pool \<Rightarrow> pool option" where
  "enter_wait s =
     (if waiter s = Away \<or> waiter s = Returned then Some (s\<lparr>waiter := Test_pending\<rparr>)
      else None)"

definition waitForIdle :: "pool \<Rightarrow> pool option" where
  "waitForIdle s =
     (case waiter s of
        Test_pending \<Rightarrow>
          (if guardian s = None
           then Some (s\<lparr>waiter := (if is_pending s then Test_pending else Test_running)\<rparr>)
           else None)
      | Test_running \<Rightarrow>
          Some (s\<lparr>waiter := (if is_running s then Test_pending else Returned)\<rparr>)
      | _ \<Rightarrow> None)"

subsection \<open>Schedules\<close>

datatype event =
    Spin nat            \<comment> \<open>this worker runs its next step\<close>
  | Spurious nat        \<comment> \<open>this worker is unblocked without a notification\<close>
  | Invoke call         \<comment> \<open>\<^verbatim>\<open>start()\<close>, \<^verbatim>\<open>stop(sp)\<close> or \<^verbatim>\<open>joinAll()\<close> is entered\<close>
  | Control             \<comment> \<open>the call in progress runs its next step\<close>
  | AddTask task nat    \<comment> \<open>\<^verbatim>\<open>addTask(t)\<close>, with the choice of \<^verbatim>\<open>notify_one\<close>\<close>
  | Clear               \<comment> \<open>\<^verbatim>\<open>clear()\<close>\<close>
  | Enter_wait          \<comment> \<open>\<^verbatim>\<open>waitForIdle()\<close> is entered\<close>
  | Wait                \<comment> \<open>\<^verbatim>\<open>waitForIdle()\<close> evaluates the next operand of its loop test\<close>

fun step :: "revision \<Rightarrow> event \<Rightarrow> pool \<Rightarrow> pool option" where
  "step rv (Spin i) s = spin rv i s"
| "step rv (Spurious i) s = spurious i s"
| "step rv (Invoke c) s = (if caller s = Idle then invoke rv c s else None)"
| "step rv Control s = control s"
| "step rv (AddTask t j) s = addTask rv t j s"
| "step rv Clear s = clear s"
| "step rv Enter_wait s = enter_wait s"
| "step rv Wait s = waitForIdle s"

fun run :: "revision \<Rightarrow> event list \<Rightarrow> pool \<Rightarrow> pool option" where
  "run rv [] s = Some s"
| "run rv (e # es) s = (case step rv e s of None \<Rightarrow> None | Some s' \<Rightarrow> run rv es s')"

section \<open>Histories\<close>

text \<open>
  What a step adds to the queue, takes from it for a worker, finishes, or throws away.
  They are read off the step itself: a task is claimed when a worker at the \<^verbatim>\<open>if\<close>
  leaves it with the task in its local variable, completed when \<^verbatim>\<open>run()\<close> returns,
  discarded when \<^verbatim>\<open>clear()\<close> swaps the queue away.
\<close>

fun added :: "event \<Rightarrow> task list" where
  "added (AddTask t j) = [t]"
| "added _ = []"

fun slot :: "spin_pc \<Rightarrow> task list" where
  "slot (Claimed t) = [t]"
| "slot (Running t) = [t]"
| "slot _ = []"

definition held :: "spin_pc list \<Rightarrow> task list" where
  "held ws = concat (map slot ws)"

fun claimed :: "revision \<Rightarrow> event \<Rightarrow> pool \<Rightarrow> task list" where
  "claimed rv (Spin i) s =
     (if i < length (threads_pool s) \<and> threads_pool s ! i = Branch
      then (case threads_pool (branch rv i s) ! i of Claimed t \<Rightarrow> [t] | _ \<Rightarrow> [])
      else [])"
| "claimed rv _ s = []"

fun completed :: "event \<Rightarrow> pool \<Rightarrow> task list" where
  "completed (Spin i) s =
     (if i < length (threads_pool s)
      then (case threads_pool s ! i of Running t \<Rightarrow> [t] | _ \<Rightarrow> [])
      else [])"
| "completed _ s = []"

fun discarded :: "event \<Rightarrow> pool \<Rightarrow> task list" where
  "discarded Clear s = (if guardian s = None then tasks_pool s else [])"
| "discarded _ s = []"

definition submitted :: "event list \<Rightarrow> task list" where
  "submitted es = concat (map added es)"

fun claims :: "revision \<Rightarrow> event list \<Rightarrow> pool \<Rightarrow> task list" where
  "claims rv [] s = []"
| "claims rv (e # es) s =
     (case step rv e s of None \<Rightarrow> [] | Some s' \<Rightarrow> claimed rv e s @ claims rv es s')"

fun completions :: "revision \<Rightarrow> event list \<Rightarrow> pool \<Rightarrow> task list" where
  "completions rv [] s = []"
| "completions rv (e # es) s =
     (case step rv e s of None \<Rightarrow> [] | Some s' \<Rightarrow> completed e s @ completions rv es s')"

fun discards :: "revision \<Rightarrow> event list \<Rightarrow> pool \<Rightarrow> task list" where
  "discards rv [] s = []"
| "discards rv (e # es) s =
     (case step rv e s of None \<Rightarrow> [] | Some s' \<Rightarrow> discarded e s @ discards rv es s')"

section \<open>Invariants\<close>

text \<open>The positions at which a worker owns the mutex (a faulted worker never releases it).\<close>

fun holding :: "spin_pc \<Rightarrow> bool" where
  "holding Pred = True"
| "holding Block = True"
| "holding Branch = True"
| "holding Faulted = True"
| "holding _ = False"

text \<open>The positions between \<^verbatim>\<open>++running_tasks_count_\<close> and \<^verbatim>\<open>--running_tasks_count_\<close>.\<close>

fun counted :: "spin_pc \<Rightarrow> bool" where
  "counted (Running t) = True"
| "counted Finished = True"
| "counted _ = False"

text \<open>The positions between the dequeue and \<^verbatim>\<open>++running_tasks_count_\<close>.\<close>

fun uncounted :: "spin_pc \<Rightarrow> bool" where
  "uncounted (Claimed t) = True"
| "uncounted _ = False"

text \<open>The position between the return of \<^verbatim>\<open>run()\<close> and \<^verbatim>\<open>--running_tasks_count_\<close>.\<close>

fun returned :: "spin_pc \<Rightarrow> bool" where
  "returned Finished = True"
| "returned _ = False"

text \<open>
  What the call in progress \<open>c\<close> knows of the flag \<open>a\<close>, of the size \<open>k\<close> of the vector
  and of the configured count \<open>n\<close>.
\<close>

definition call_ok :: "call_pc \<Rightarrow> bool \<Rightarrow> nat \<Rightarrow> nat \<Rightarrow> bool" where
  "call_ok c a k n =
     (case c of
        Idle \<Rightarrow> (if a then k = n else k = 0 \<or> k = n)
      | Start_alive \<Rightarrow> \<not> a \<and> k = 0
      | Start_spawn i \<Rightarrow> a \<and> k = i \<and> i \<le> n
      | _ \<Rightarrow> \<not> a \<and> (k = 0 \<or> k = n))"

definition call_inv :: "pool \<Rightarrow> bool" where
  "call_inv s = call_ok (caller s) (alive s) (length (threads_pool s)) (threads_count s)"

definition lock_inv :: "pool \<Rightarrow> bool" where
  "lock_inv s \<longleftrightarrow>
     (\<forall>i < length (threads_pool s). holding (threads_pool s ! i) \<longleftrightarrow> guardian s = Some i) \<and>
     (\<forall>i. guardian s = Some i \<longrightarrow> i < length (threads_pool s))"

definition count_inv :: "pool \<Rightarrow> bool" where
  "count_inv s \<longleftrightarrow> running_tasks_count s = length (filter counted (threads_pool s))"

definition pool_inv :: "pool \<Rightarrow> bool" where
  "pool_inv s \<longleftrightarrow> lock_inv s \<and> count_inv s \<and> call_inv s"

text \<open>
  \<^verbatim>\<open>stop(SYNC)\<close> returns with the step \<open>e\<close> from \<open>s\<close> to \<open>s'\<close>: the call was in
  \<^verbatim>\<open>stop\<close> with the policy \<^verbatim>\<open>SYNC\<close> and is over afterwards.
\<close>

definition stop_sync_returns :: "revision \<Rightarrow> event \<Rightarrow> pool \<Rightarrow> pool \<Rightarrow> bool" where
  "stop_sync_returns rv e s s' \<longleftrightarrow>
     step rv e s = Some s' \<and> caller s' = Idle \<and>
     (e = Invoke (Stop SYNC) \<or>
      e = Control \<and> (caller s = Stop_notify SYNC \<or> caller s = Stop_clean))"

text \<open>The positions that only exist where workers wait on the condition variable.\<close>

fun waits :: "spin_pc \<Rightarrow> bool" where
  "waits Pred = True"
| "waits Block = True"
| "waits Parked = True"
| "waits Woken = True"
| "waits _ = False"

definition polling :: "pool \<Rightarrow> bool" where
  "polling s \<longleftrightarrow> (\<forall>i < length (threads_pool s). \<not> waits (threads_pool s ! i))"

text \<open>
  part_001: once the flag is false no worker is about to block, and once
  \<^verbatim>\<open>notify_all()\<close> of the \<^verbatim>\<open>stop\<close> that cleared it has run none is blocked.
\<close>

definition signalled :: "pool \<Rightarrow> bool" where
  "signalled s \<longleftrightarrow>
     (\<not> alive s \<longrightarrow>
        (\<forall>i < length (threads_pool s).
           threads_pool s ! i \<noteq> Block \<and>
           ((\<forall>sp. caller s \<noteq> Stop_notify sp) \<longrightarrow> threads_pool s ! i \<noteq> Parked)))"

text \<open>
  part_001: a worker at the \<^verbatim>\<open>if(alive_)\<close> after the wait finds a task whenever it
  finds the flag true, and no worker has called \<^verbatim>\<open>front()\<close> on an empty queue.
\<close>

definition sound :: "pool \<Rightarrow> bool" where
  "sound s \<longleftrightarrow>
     (\<forall>i < length (threads_pool s).
        threads_pool s ! i \<noteq> Faulted \<and>
        (threads_pool s ! i = Branch \<longrightarrow> alive s \<longrightarrow> tasks_pool s \<noteq> []))"

section \<open>Case rules for the steps\<close>

lemma branch_cases:
  obtains (leave) "branch rv i s = leave i s" "rv = Guarded \<longrightarrow> \<not> alive s" "rv \<noteq> Guarded \<longrightarrow> tasks_pool s = []"
  | (dequeue) t q where "tasks_pool s = t # q" "rv = Guarded \<longrightarrow> alive s"
      "branch rv i s = at i (Claimed t) (s\<lparr>tasks_pool := q, guardian := None\<rparr>)"
  | (fault) "rv = Guarded" "alive s" "tasks_pool s = []" "branch rv i s = at i Faulted s"
  by (cases rv; cases "tasks_pool s"; cases "alive s"; simp add: dequeue_def)

lemma spinE:
  assumes "spin rv i s = Some s'"
  obtains
    (head) "i < length (threads_pool s)" "threads_pool s ! i = Head"
      "s' = at i (if alive s then Lock else Exited) s"
  | (lock) "i < length (threads_pool s)" "threads_pool s ! i = Lock" "guardian s = None"
      "s' = at i (if rv = Yielding then Branch else Pred) (s\<lparr>guardian := Some i\<rparr>)"
  | (pred) "i < length (threads_pool s)" "threads_pool s ! i = Pred"
      "s' = at i (if \<not> alive s \<or> tasks_pool s \<noteq> [] then Branch else Block) s"
  | (block) "i < length (threads_pool s)" "threads_pool s ! i = Block"
      "s' = at i Parked (s\<lparr>guardian := None\<rparr>)"
  | (woken) "i < length (threads_pool s)" "threads_pool s ! i = Woken" "guardian s = None"
      "s' = at i Pred (s\<lparr>guardian := Some i\<rparr>)"
  | (branch) "i < length (threads_pool s)" "threads_pool s ! i = Branch"
      "s' = branch rv i s"
  | (claimed) t where "i < length (threads_pool s)" "threads_pool s ! i = Claimed t"
      "s' = at i (Running t) (s\<lparr>running_tasks_count := running_tasks_count s + 1\<rparr>)"
  | (running) t where "i < length (threads_pool s)" "threads_pool s ! i = Running t"
      "s' = at i Finished s"
  | (finished) "i < length (threads_pool s)" "threads_pool s ! i = Finished"
      "s' = at i Head (s\<lparr>running_tasks_count := running_tasks_count s - 1\<rparr>)"
proof -
  from assms have i: "i < length (threads_pool s)"
    by (simp add: spin_def split: if_splits)
  show thesis
  proof (cases "threads_pool s ! i")
    case Head with assms i head show ?thesis by (simp add: spin_def)
  next
    case Lock with assms i lock show ?thesis by (simp add: spin_def split: if_splits)
  next
    case Pred with assms i pred show ?thesis by (simp add: spin_def)
  next
    case Block with assms i block show ?thesis by (simp add: spin_def)
  next
    case Parked with assms i show ?thesis by (simp add: spin_def)
  next
    case Woken with assms i woken show ?thesis by (simp add: spin_def split: if_splits)
  next
    case Branch with assms i branch show ?thesis by (simp add: spin_def)
  next
    case (Claimed t) with assms i claimed show ?thesis by (simp add: spin_def inc_def)
  next
    case (Running t) with assms i running show ?thesis by (simp add: spin_def)
  next
    case Finished with assms i finished show ?thesis by (simp add: spin_def dec_def)
  next
    case Exited with assms i show ?thesis by (simp add: spin_def)
  next
    case Faulted with assms i show ?thesis by (simp add: spin_def)
  qed
qed

lemma branch_frame:
  "length (threads_pool (branch rv i s)) = length (threads_pool s) \<and>
   alive (branch rv i s) = alive s \<and> caller (branch rv i s) = caller s \<and>
   threads_count (branch rv i s) = threads_count s \<and> waiter (branch rv i s) = waiter s \<and>
   running_tasks_count (branch rv i s) = running_tasks_count s"
  by (rule branch_cases [of rv i s]) (simp_all add: at_def leave_def)

lemma spin_frame:
  "spin rv i s = Some s' \<Longrightarrow>
     length (threads_pool s') = length (threads_pool s) \<and> alive s' = alive s \<and>
     caller s' = caller s \<and> threads_count s' = threads_count s \<and> waiter s' = waiter s"
  by (erule spinE) (simp_all add: at_def branch_frame)

lemma filter_update_length:
  "i < length ws \<Longrightarrow>
   length (filter P (ws[i := p])) + (if P (ws ! i) then 1 else 0) =
   length (filter P ws) + (if P p then 1 else 0)"
proof (induction ws arbitrary: i)
  case Nil
  then show ?case by simp
next
  case (Cons w ws)
  then show ?case by (cases i) auto
qed

lemma counted_update:
  "i < length ws \<Longrightarrow> counted (ws ! i) = counted p \<Longrightarrow>
   length (filter counted (ws[i := p])) = length (filter counted ws)"
  using filter_update_length [of i ws counted p] by simp

lemma counted_update_in:
  "i < length ws \<Longrightarrow> \<not> counted (ws ! i) \<Longrightarrow> counted p \<Longrightarrow>
   length (filter counted (ws[i := p])) = Suc (length (filter counted ws))"
  using filter_update_length [of i ws counted p] by simp

lemma counted_update_out:
  "i < length ws \<Longrightarrow> counted (ws ! i) \<Longrightarrow> \<not> counted p \<Longrightarrow>
   Suc (length (filter counted (ws[i := p]))) = length (filter counted ws)"
  using filter_update_length [of i ws counted p] by simp

lemma call_inv_spin: "call_inv s \<Longrightarrow> spin rv i s = Some s' \<Longrightarrow> call_inv s'"
  using spin_frame [of rv i s s'] by (simp add: call_inv_def)

lemma lock_inv_spin: "lock_inv s \<Longrightarrow> spin rv i s = Some s' \<Longrightarrow> lock_inv s'"
proof (erule spinE)
  assume "lock_inv s" "i < length (threads_pool s)" "threads_pool s ! i = Branch"
    "s' = branch rv i s"
  then show "lock_inv s'"
    by (cases rule: branch_cases [of rv i s])
       (auto simp: lock_inv_def at_def leave_def nth_list_update)
qed (auto simp: lock_inv_def at_def nth_list_update)

lemma count_inv_spin: "count_inv s \<Longrightarrow> spin rv i s = Some s' \<Longrightarrow> count_inv s'"
proof (erule spinE)
  assume "count_inv s" "i < length (threads_pool s)" "threads_pool s ! i = Branch"
    "s' = branch rv i s"
  then show "count_inv s'"
    by (cases rule: branch_cases [of rv i s])
       (simp_all add: count_inv_def at_def leave_def counted_update)
next
  assume "count_inv s" "i < length (threads_pool s)" "threads_pool s ! i = Finished"
    "s' = at i Head (s\<lparr>running_tasks_count := running_tasks_count s - 1\<rparr>)"
  then show "count_inv s'"
    using counted_update_out [of i "threads_pool s" Head]
    by (simp add: count_inv_def at_def)
qed (simp_all add: count_inv_def at_def counted_update counted_update_in)


subsection \<open>Waking\<close>

lemma notify_one_cases:
  obtains (none) "parked ws = []" "notify_one j ws = ws"
  | (one) k where "k < length ws" "ws ! k = Parked" "notify_one j ws = ws[k := Woken]"
proof (cases "parked ws")
  case Nil
  then show ?thesis using none by (simp add: notify_one_def)
next
  case (Cons k ks)
  let ?m = "(k # ks) ! (j mod length (k # ks))"
  have "?m \<in> set (parked ws)"
    unfolding Cons by (rule nth_mem) simp
  then have "?m < length ws" "ws ! ?m = Parked"
    by (simp_all add: parked_def)
  moreover have "notify_one j ws = ws[?m := Woken]"
    by (simp add: notify_one_def Cons)
  ultimately show ?thesis using one by blast
qed

lemma length_notify_all [simp]: "length (notify_all ws) = length ws"
  by (simp add: notify_all_def)

lemma nth_notify_all [simp]: "i < length ws \<Longrightarrow> notify_all ws ! i = wake (ws ! i)"
  by (simp add: notify_all_def)

lemma holding_wake [simp]: "holding (wake p) = holding p"
  by (simp add: wake_def)

lemma counted_wake [simp]: "counted (wake p) = counted p"
  by (simp add: wake_def)

lemma counted_notify_all [simp]:
  "length (filter counted (notify_all ws)) = length (filter counted ws)"
  by (induction ws) (simp_all add: notify_all_def)

lemma length_notify_one [simp]: "length (notify_one j ws) = length ws"
  by (rule notify_one_cases [of ws j]) simp_all

lemma counted_notify_one [simp]:
  "length (filter counted (notify_one j ws)) = length (filter counted ws)"
  by (rule notify_one_cases [of ws j]) (simp_all add: counted_update)

lemma holding_notify_one [simp]:
  "i < length ws \<Longrightarrow> holding (notify_one j ws ! i) = holding (ws ! i)"
  by (rule notify_one_cases [of ws j]) (auto simp: nth_list_update)

subsection \<open>The other steps keep the invariants\<close>

lemma clean_up_Some:
  "clean_up s = Some s' \<longleftrightarrow>
     list_all (\<lambda>p. p = Exited) (threads_pool s) \<and> s' = s\<lparr>threads_pool := []\<rparr>"
  by (auto simp: clean_up_def)

lemma all_Exited_nth:
  "list_all (\<lambda>p. p = Exited) ws \<Longrightarrow> i < length ws \<Longrightarrow> ws ! i = Exited"
  by (simp add: list_all_length)

lemma all_Exited_counted:
  "list_all (\<lambda>p. p = Exited) ws \<Longrightarrow> filter counted ws = []"
  by (induction ws) simp_all

lemma lock_inv_clean_up: "lock_inv s \<Longrightarrow> clean_up s = Some s' \<Longrightarrow> lock_inv s' \<and> guardian s' = None"
proof -
  assume inv: "lock_inv s" and c: "clean_up s = Some s'"
  have "guardian s = None"
  proof (cases "guardian s")
    case (Some i)
    with inv have "i < length (threads_pool s)" "holding (threads_pool s ! i)"
      by (simp_all add: lock_inv_def)
    with c show ?thesis
      by (simp add: clean_up_Some all_Exited_nth)
  qed simp
  with c show ?thesis by (simp add: clean_up_Some lock_inv_def)
qed

lemma count_inv_clean_up: "count_inv s \<Longrightarrow> clean_up s = Some s' \<Longrightarrow> count_inv s'"
  by (simp add: clean_up_Some count_inv_def all_Exited_counted)

lemma control_cases:
  assumes "control s = Some s'"
  obtains
    (clean) c where "caller s = Start_clean \<and> c = Start_alive \<or>
        (caller s = Stop_clean \<or> caller s = Join_clean) \<and> c = Idle"
      "list_all (\<lambda>p. p = Exited) (threads_pool s)" "s' = s\<lparr>threads_pool := [], caller := c\<rparr>"
  | (alive) "caller s = Start_alive" "s' = s\<lparr>alive := True, caller := Start_spawn 0\<rparr>"
  | (spawn) i where "caller s = Start_spawn i" "i < threads_count s"
      "s' = s\<lparr>threads_pool := threads_pool s @ [Head], caller := Start_spawn (Suc i)\<rparr>"
  | (started) i where "caller s = Start_spawn i" "\<not> i < threads_count s" "s' = s\<lparr>caller := Idle\<rparr>"
  | (notify) sp where "caller s = Stop_notify sp"
      "s' = s\<lparr>threads_pool := notify_all (threads_pool s), caller := after_flag sp s\<rparr>"
  using assms
  by (cases "caller s") (auto simp: control_def clean_up_Some split: if_splits)

lemma lock_inv_control: "lock_inv s \<Longrightarrow> control s = Some s' \<Longrightarrow> lock_inv s'"
proof (erule control_cases)
  fix c
  assume "lock_inv s" "list_all (\<lambda>p. p = Exited) (threads_pool s)"
    "s' = s\<lparr>threads_pool := [], caller := c\<rparr>"
  then show "lock_inv s'"
    using lock_inv_clean_up [of s "s\<lparr>threads_pool := []\<rparr>"]
    by (simp add: clean_up_Some lock_inv_def)
qed (auto simp: lock_inv_def nth_append less_Suc_eq)

lemma count_inv_control: "count_inv s \<Longrightarrow> control s = Some s' \<Longrightarrow> count_inv s'"
  by (erule control_cases) (auto simp: count_inv_def all_Exited_counted)

lemma after_flag_cases: "after_flag sp s = Stop_clean \<or> after_flag sp s = Idle"
  by (simp add: after_flag_def)

lemma call_inv_control: "call_inv s \<Longrightarrow> control s = Some s' \<Longrightarrow> call_inv s'"
proof (erule control_cases)
  fix sp
  assume "call_inv s" "caller s = Stop_notify sp"
    "s' = s\<lparr>threads_pool := notify_all (threads_pool s), caller := after_flag sp s\<rparr>"
  then show "call_inv s'"
    using after_flag_cases [of sp s] by (auto simp: call_inv_def call_ok_def)
qed (auto simp: call_inv_def call_ok_def)

lemma invoke_cases:
  assumes "invoke rv c s = Some s'"
  obtains
    (up) "c = Start" "alive s" "s' = s"
  | (start) "c = Start" "\<not> alive s"
      "s' = s\<lparr>caller := (if threads_pool s \<noteq> [] then Start_clean else Start_alive)\<rparr>"
  | (stop_yielding) sp where "c = Stop sp" "rv = Yielding"
      "s' = s\<lparr>alive := False, caller := after_flag sp s\<rparr>"
  | (stop_notifying) sp where "c = Stop sp" "rv = Notifying"
      "s' = s\<lparr>alive := False, caller := Stop_notify sp\<rparr>"
  | (stop_guarded) sp where "c = Stop sp" "rv = Guarded" "guardian s = None"
      "s' = s\<lparr>alive := False, caller := Stop_notify sp\<rparr>"
  | (join) "c = JoinAll" "\<not> alive s" "threads_pool s \<noteq> []" "s' = s\<lparr>caller := Join_clean\<rparr>"
  | (no_join) "c = JoinAll" "alive s \<or> threads_pool s = []" "s' = s"
proof (cases c)
  case Start
  show ?thesis
  proof (cases "alive s")
    case True
    with assms Start have "s' = s" by (simp add: start_def)
    with Start True show ?thesis by (rule up)
  next
    case False
    with assms Start
    have "s' = s\<lparr>caller := (if threads_pool s \<noteq> [] then Start_clean else Start_alive)\<rparr>"
      by (simp add: start_def)
    with Start False show ?thesis by (rule start)
  qed
next
  case (Stop sp)
  show ?thesis
  proof (cases rv)
    case Yielding
    with assms Stop have "s' = s\<lparr>alive := False, caller := after_flag sp s\<rparr>" by simp
    with Stop Yielding show ?thesis by (rule stop_yielding)
  next
    case Notifying
    with assms Stop have "s' = s\<lparr>alive := False, caller := Stop_notify sp\<rparr>" by simp
    with Stop Notifying show ?thesis by (rule stop_notifying)
  next
    case Guarded
    with assms Stop have "guardian s = None" "s' = s\<lparr>alive := False, caller := Stop_notify sp\<rparr>"
      by (simp_all split: if_splits)
    with Stop Guarded show ?thesis by (rule stop_guarded)
  qed
next
  case JoinAll
  show ?thesis
  proof (cases "\<not> alive s \<and> threads_pool s \<noteq> []")
    case True
    with assms JoinAll have "s' = s\<lparr>caller := Join_clean\<rparr>" by (simp add: joinAll_def)
    with JoinAll True show ?thesis by (auto intro: join)
  next
    case False
    with assms JoinAll have "s' = s" by (auto simp: joinAll_def)
    with JoinAll False show ?thesis by (auto intro: no_join)
  qed
qed

lemma lock_inv_invoke: "lock_inv s \<Longrightarrow> invoke rv c s = Some s' \<Longrightarrow> lock_inv s'"
  by (erule invoke_cases) (simp_all add: lock_inv_def)

lemma count_inv_invoke: "count_inv s \<Longrightarrow> invoke rv c s = Some s' \<Longrightarrow> count_inv s'"
  by (erule invoke_cases) (simp_all add: count_inv_def)

lemma call_inv_invoke:
  "call_inv s \<Longrightarrow> caller s = Idle \<Longrightarrow> invoke rv c s = Some s' \<Longrightarrow> call_inv s'"
proof (erule invoke_cases)
  fix sp
  assume "call_inv s" "caller s = Idle" "s' = s\<lparr>alive := False, caller := after_flag sp s\<rparr>"
  then show "call_inv s'"
    using after_flag_cases [of sp s] by (auto simp: call_inv_def call_ok_def split: if_splits)
qed (auto simp: call_inv_def call_ok_def split: if_splits)

lemma pool_inv_ThreadPool: "pool_inv (ThreadPool n)"
  by (simp add: pool_inv_def lock_inv_def count_inv_def call_inv_def call_ok_def ThreadPool_def)

lemma spurious_Some:
  "spurious i s = Some s' \<longleftrightarrow>
     i < length (threads_pool s) \<and> threads_pool s ! i = Parked \<and> s' = at i Woken s"
  by (auto simp: spurious_def)

lemma lock_inv_spurious: "lock_inv s \<Longrightarrow> spurious i s = Some s' \<Longrightarrow> lock_inv s'"
  unfolding spurious_Some lock_inv_def at_def
  by (auto simp: nth_list_update)

lemma pool_inv_spurious: "pool_inv s \<Longrightarrow> spurious i s = Some s' \<Longrightarrow> pool_inv s'"
  unfolding pool_inv_def
  by (auto simp: lock_inv_spurious)
     (auto simp: spurious_Some count_inv_def call_inv_def at_def counted_update)

lemma pool_inv_addTask: "pool_inv s \<Longrightarrow> addTask rv t j s = Some s' \<Longrightarrow> pool_inv s'"
  by (auto simp: pool_inv_def lock_inv_def count_inv_def call_inv_def addTask_def
        split: if_splits)

lemma pool_inv_clear: "pool_inv s \<Longrightarrow> clear s = Some s' \<Longrightarrow> pool_inv s'"
  by (auto simp: pool_inv_def lock_inv_def count_inv_def call_inv_def clear_def
        split: if_splits)

lemma pool_inv_enter_wait: "pool_inv s \<Longrightarrow> enter_wait s = Some s' \<Longrightarrow> pool_inv s'"
  by (auto simp: pool_inv_def lock_inv_def count_inv_def call_inv_def enter_wait_def
        split: if_splits)

lemma pool_inv_waitForIdle: "pool_inv s \<Longrightarrow> waitForIdle s = Some s' \<Longrightarrow> pool_inv s'"
  by (auto simp: pool_inv_def lock_inv_def count_inv_def call_inv_def waitForIdle_def
        split: if_splits wait_pc.splits)

lemma pool_inv_step:
  assumes "pool_inv s" and "step rv e s = Some s'"
  shows "pool_inv s'"
proof (cases e)
  case (Spin i)
  with assms have "spin rv i s = Some s'" by simp
  with assms(1) show ?thesis
    unfolding pool_inv_def by (blast intro: lock_inv_spin count_inv_spin call_inv_spin)
next
  case (Spurious i)
  with assms have "spurious i s = Some s'" by simp
  with assms(1) show ?thesis by (rule pool_inv_spurious)
next
  case (Invoke c)
  with assms have "caller s = Idle" "invoke rv c s = Some s'"
    by (simp_all split: if_splits)
  with assms(1) show ?thesis
    unfolding pool_inv_def by (blast intro: lock_inv_invoke count_inv_invoke call_inv_invoke)
next
  case Control
  with assms have "control s = Some s'" by simp
  with assms(1) show ?thesis
    unfolding pool_inv_def by (blast intro: lock_inv_control count_inv_control call_inv_control)
next
  case (AddTask t j)
  with assms have "addTask rv t j s = Some s'" by simp
  with assms(1) show ?thesis by (rule pool_inv_addTask)
next
  case Clear
  with assms have "clear s = Some s'" by simp
  with assms(1) show ?thesis by (rule pool_inv_clear)
next
  case Enter_wait
  with assms have "enter_wait s = Some s'" by simp
  with assms(1) show ?thesis by (rule pool_inv_enter_wait)
next
  case Wait
  with assms have "waitForIdle s = Some s'" by simp
  with assms(1) show ?thesis by (rule pool_inv_waitForIdle)
qed

lemma pool_inv_run: "pool_inv s \<Longrightarrow> run rv es s = Some s' \<Longrightarrow> pool_inv s'"
proof (induction es arbitrary: s)
  case Nil
  then show ?case by simp
next
  case (Cons e es)
  then show ?case
    by (auto split: option.splits dest: pool_inv_step)
qed

text \<open>
  The decrement never meets a counter at 0: in every state the pool can reach, the counter
  is the number of workers between their increment and their decrement, and the worker
  about to decrement is one of them.
\<close>

lemma dec_never_wraps:
  assumes "run rv es (ThreadPool n) = Some s" and "i < length (threads_pool s)"
    and "threads_pool s ! i = Finished"
  shows "running_tasks_count s = length (filter counted (threads_pool s)) \<and>
         0 < running_tasks_count s"
proof -
  from assms(1) have "pool_inv s"
    by (rule pool_inv_run [OF pool_inv_ThreadPool])
  then have c: "running_tasks_count s = length (filter counted (threads_pool s))"
    by (simp add: pool_inv_def count_inv_def)
  from assms(2) have "threads_pool s ! i \<in> set (threads_pool s)"
    by (rule nth_mem)
  with assms(3) have "Finished \<in> set (threads_pool s)" by simp
  moreover have "counted Finished" by simp
  ultimately have "filter counted (threads_pool s) \<noteq> []"
    unfolding filter_empty_conv by blast
  with c show ?thesis by simp
qed

section \<open>Evaluating schedules\<close>

text \<open>The equations that \<open>simp\<close> needs to run a concrete schedule.\<close>

lemmas step_defs = spin_def at_def dequeue_def leave_def inc_def dec_def spurious_def
  clean_up_def after_flag_def start_def joinAll_def control_def addTask_def clear_def
  enter_wait_def waitForIdle_def notify_all_def notify_one_def parked_def wake_def
  is_pending_def is_running_def


section \<open>Stopping\<close>

text \<open>
  Claim C4. After \<^verbatim>\<open>stop(SYNC)\<close> has returned, in any state the pool can reach and
  in each of the three revisions: \<^verbatim>\<open>status()\<close> is \<^verbatim>\<open>DOWN\<close>, \<^verbatim>\<open>running()\<close> is 0,
  the vector of threads is empty, and every thread it held had left \<^verbatim>\<open>spin()\<close> when
  the call returned (that is what \<^verbatim>\<open>join\<close> waits for).
\<close>

theorem stop_sync_synchronizes:
  assumes "run rv es (ThreadPool n) = Some s" and "stop_sync_returns rv e s s'"
  shows "status s' = DOWN \<and> running s' = 0 \<and> threads_pool s' = [] \<and>
         list_all (\<lambda>p. p = Exited) (threads_pool s)"
proof -
  from assms(1) have inv: "pool_inv s"
    by (rule pool_inv_run [OF pool_inv_ThreadPool])
  then have cnt: "running_tasks_count s = length (filter counted (threads_pool s))"
    and call: "call_ok (caller s) (alive s) (length (threads_pool s)) (threads_count s)"
    by (simp_all add: pool_inv_def count_inv_def call_inv_def)
  from assms(2) have st: "step rv e s = Some s'" and idle: "caller s' = Idle"
    and ev: "e = Invoke (Stop SYNC) \<or>
             e = Control \<and> (caller s = Stop_notify SYNC \<or> caller s = Stop_clean)"
    by (simp_all add: stop_sync_returns_def)
  from ev show ?thesis
  proof
    assume e: "e = Invoke (Stop SYNC)"
    with st have "invoke rv (Stop SYNC) s = Some s'"
      by (simp split: if_splits)
    then show ?thesis
      using idle cnt
      by (cases rule: invoke_cases)
         (auto simp: after_flag_def status_def running_def split: if_splits)
  next
    assume e: "e = Control \<and> (caller s = Stop_notify SYNC \<or> caller s = Stop_clean)"
    with st have "control s = Some s'" by simp
    then show ?thesis
      using e idle cnt call
      by (cases rule: control_cases)
         (auto simp: after_flag_def status_def running_def call_ok_def all_Exited_counted
            notify_all_def split: if_splits)
  qed
qed


text \<open>
  One thread, one task: \<^verbatim>\<open>stop(SYNC)\<close> is called while the task runs, the worker
  finishes it and exits, \<^verbatim>\<open>clean_up\<close> gets through.
\<close>

theorem stop_sync_synchronizes_witness:
  "run Guarded [AddTask 7 0, Invoke Start, Control, Control, Control, Spin 0, Spin 0, Spin 0,
       Spin 0, Spin 0, Invoke (Stop SYNC), Control, Spin 0, Spin 0, Spin 0] (ThreadPool 1)
     = Some \<lparr>threads_count = 1, tasks_pool = [], guardian = None, threads_pool = [Exited],
         alive = False, running_tasks_count = 0, caller = Stop_clean, waiter = Away\<rparr> \<and>
   stop_sync_returns Guarded Control
     \<lparr>threads_count = 1, tasks_pool = [], guardian = None, threads_pool = [Exited],
         alive = False, running_tasks_count = 0, caller = Stop_clean, waiter = Away\<rparr>
     \<lparr>threads_count = 1, tasks_pool = [], guardian = None, threads_pool = [],
         alive = False, running_tasks_count = 0, caller = Idle, waiter = Away\<rparr> \<and>
   status \<lparr>threads_count = 1, tasks_pool = [], guardian = None, threads_pool = [],
         alive = False, running_tasks_count = 0, caller = Idle, waiter = Away\<rparr> = DOWN \<and>
   running \<lparr>threads_count = 1, tasks_pool = [], guardian = None, threads_pool = [],
         alive = False, running_tasks_count = 0, caller = Idle, waiter = Away\<rparr> = 0"
proof -
  let ?s = "\<lparr>threads_count = 1, tasks_pool = [], guardian = None, threads_pool = [Exited],
         alive = False, running_tasks_count = 0, caller = Stop_clean, waiter = Away\<rparr>"
  let ?s' = "\<lparr>threads_count = 1, tasks_pool = [], guardian = None, threads_pool = [],
         alive = False, running_tasks_count = 0, caller = Idle, waiter = Away\<rparr>"
  have r: "run Guarded [AddTask 7 0, Invoke Start, Control, Control, Control, Spin 0, Spin 0,
       Spin 0, Spin 0, Spin 0, Invoke (Stop SYNC), Control, Spin 0, Spin 0, Spin 0]
       (ThreadPool 1) = Some ?s"
    by (simp add: ThreadPool_def step_defs)
  have t: "stop_sync_returns Guarded Control ?s ?s'"
    by (simp add: stop_sync_returns_def step_defs)
  from stop_sync_synchronizes [OF r t] r t show ?thesis by simp
qed

section \<open>Conservation of tasks\<close>

subsection \<open>Tasks in the workers' hands\<close>

lemma held_Cons [simp]: "held (w # ws) = slot w @ held ws"
  by (simp add: held_def)

lemma held_Nil [simp]: "held [] = []"
  by (simp add: held_def)

lemma held_append [simp]: "held (ws @ vs) = held ws @ held vs"
  by (simp add: held_def)

lemma held_update:
  "i < length ws \<Longrightarrow>
   mset (held (ws[i := p])) + mset (slot (ws ! i)) = mset (held ws) + mset (slot p)"
proof (induction ws arbitrary: i)
  case Nil
  then show ?case by simp
next
  case (Cons w ws)
  then show ?case by (cases i) (simp_all add: add.assoc)
qed

lemma held_update_same:
  "i < length ws \<Longrightarrow> slot (ws ! i) = slot p \<Longrightarrow> held (ws[i := p]) = held ws"
proof (induction ws arbitrary: i)
  case Nil
  then show ?case by simp
next
  case (Cons w ws)
  then show ?case by (cases i) simp_all
qed

lemma slot_wake [simp]: "slot (wake p) = slot p"
  by (simp add: wake_def)

lemma held_notify_all [simp]: "held (notify_all ws) = held ws"
  by (induction ws) (simp_all add: notify_all_def)

lemma held_notify_one [simp]: "held (notify_one j ws) = held ws"
  by (rule notify_one_cases [of ws j]) (simp_all add: held_update_same)

lemma all_Exited_held: "list_all (\<lambda>p. p = Exited) ws \<Longrightarrow> held ws = []"
  by (induction ws) simp_all

lemma held_accounting:
  "length (held ws) + length (filter returned ws) =
   length (filter uncounted ws) + length (filter counted ws)"
proof (induction ws)
  case Nil
  then show ?case by simp
next
  case (Cons w ws)
  then show ?case by (cases w) simp_all
qed

subsection \<open>Every step conserves the tasks\<close>

lemma spin_conserves:
  assumes "spin rv i s = Some s'"
  shows "mset (tasks_pool s') + mset (held (threads_pool s')) + mset (completed (Spin i) s) =
         mset (tasks_pool s) + mset (held (threads_pool s))"
  using assms
proof (cases rule: spinE)
  case branch
  then show ?thesis
    using held_update [of i "threads_pool s"]
    by (cases rule: branch_cases [of rv i s])
       (simp_all add: at_def leave_def held_update_same)
next
  case (running t)
  then show ?thesis
    using held_update [of i "threads_pool s" Finished] by (simp add: at_def)
qed (simp_all add: at_def held_update_same)

lemma control_conserves:
  assumes "control s = Some s'"
  shows "tasks_pool s' = tasks_pool s \<and> held (threads_pool s') = held (threads_pool s)"
  using assms by (cases rule: control_cases) (simp_all add: all_Exited_held)

lemma invoke_conserves:
  assumes "invoke rv c s = Some s'"
  shows "tasks_pool s' = tasks_pool s \<and> threads_pool s' = threads_pool s"
  using assms by (cases rule: invoke_cases) simp_all

lemma step_conserves:
  assumes "step rv e s = Some s'"
  shows "mset (tasks_pool s') + mset (held (threads_pool s')) + mset (discarded e s) +
           mset (completed e s) =
         mset (tasks_pool s) + mset (held (threads_pool s)) + mset (added e)"
proof (cases e)
  case (Spin i)
  with assms show ?thesis using spin_conserves [of rv i s s'] by simp
next
  case (Spurious i)
  with assms show ?thesis by (simp add: spurious_Some at_def held_update_same)
next
  case (Invoke c)
  with assms show ?thesis using invoke_conserves [of rv c s s'] by (simp split: if_splits)
next
  case Control
  with assms show ?thesis using control_conserves [of s s'] by simp
next
  case (AddTask t j)
  with assms show ?thesis by (auto simp: addTask_def split: if_splits)
next
  case Clear
  with assms show ?thesis by (auto simp: clear_def split: if_splits)
next
  case Enter_wait
  with assms show ?thesis by (auto simp: enter_wait_def split: if_splits)
next
  case Wait
  with assms show ?thesis by (auto simp: waitForIdle_def split: if_splits wait_pc.splits)
qed

lemma submitted_Cons [simp]: "submitted (e # es) = added e @ submitted es"
  by (simp add: submitted_def)

lemma submitted_Nil [simp]: "submitted [] = []"
  by (simp add: submitted_def)

lemma conserve_chain:
  fixes a :: "'a multiset"
  assumes "a' + d2 + c2 = m + s2" and "m + d1 + c1 = a + s1"
  shows "a' + (d1 + d2) + (c1 + c2) = a + (s1 + s2)"
proof -
  have "a' + (d1 + d2) + (c1 + c2) = (a' + d2 + c2) + d1 + c1"
    by (simp add: ac_simps)
  also have "\<dots> = (m + d1 + c1) + s2"
    using assms(1) by (simp add: ac_simps)
  also have "\<dots> = a + (s1 + s2)"
    using assms(2) by (simp add: ac_simps)
  finally show ?thesis .
qed

lemma run_conserves:
  "run rv es s = Some s' \<Longrightarrow>
   mset (tasks_pool s') + mset (held (threads_pool s')) + mset (discards rv es s) +
     mset (completions rv es s) =
   mset (tasks_pool s) + mset (held (threads_pool s)) + mset (submitted es)"
proof (induction es arbitrary: s)
  case Nil
  then show ?case by simp
next
  case (Cons e es)
  then obtain u where u: "step rv e s = Some u" and r: "run rv es u = Some s'"
    by (auto split: option.splits)
  have "(mset (tasks_pool s') + mset (held (threads_pool s'))) +
          (mset (discarded e s) + mset (discards rv es u)) +
          (mset (completed e s) + mset (completions rv es u)) =
        (mset (tasks_pool s) + mset (held (threads_pool s))) +
          (mset (added e) + mset (submitted es))"
    by (rule conserve_chain [OF Cons.IH [OF r] step_conserves [OF u]])
  with u show ?case by (simp add: ac_simps)
qed

subsection \<open>The queue is first in, first out\<close>

lemma spin_fifo:
  assumes "spin rv i s = Some s'"
  shows "claimed rv (Spin i) s @ tasks_pool s' = tasks_pool s"
  using assms
proof (cases rule: spinE)
  case branch
  then show ?thesis
    by (cases rule: branch_cases [of rv i s]) (simp_all add: at_def leave_def)
qed (simp_all add: at_def)

lemma step_fifo:
  assumes "step rv e s = Some s'" and "e \<noteq> Clear"
  shows "claimed rv e s @ tasks_pool s' = tasks_pool s @ added e"
proof (cases e)
  case (Spin i)
  with assms show ?thesis using spin_fifo [of rv i s s'] by simp
next
  case (Spurious i)
  with assms show ?thesis by (simp add: spurious_Some at_def)
next
  case (Invoke c)
  with assms show ?thesis using invoke_conserves [of rv c s s'] by (simp split: if_splits)
next
  case Control
  with assms show ?thesis using control_conserves [of s s'] by simp
next
  case (AddTask t j)
  with assms show ?thesis by (auto simp: addTask_def split: if_splits)
next
  case Clear
  with assms show ?thesis by simp
next
  case Enter_wait
  with assms show ?thesis by (auto simp: enter_wait_def split: if_splits)
next
  case Wait
  with assms show ?thesis by (auto simp: waitForIdle_def split: if_splits wait_pc.splits)
qed

lemma run_fifo:
  "run rv es s = Some s' \<Longrightarrow> Clear \<notin> set es \<Longrightarrow>
   claims rv es s @ tasks_pool s' = tasks_pool s @ submitted es"
proof (induction es arbitrary: s)
  case Nil
  then show ?case by simp
next
  case (Cons e es)
  then obtain u where u: "step rv e s = Some u" and r: "run rv es u = Some s'"
    by (auto split: option.splits)
  from Cons.prems have "e \<noteq> Clear" "Clear \<notin> set es" by auto
  with Cons.IH [OF r] step_fifo [OF u] u show ?case
    by (metis append.assoc claims.simps(2) option.simps(5) submitted_Cons)
qed

lemma step_queue_conserves:
  assumes "step rv e s = Some s'"
  shows "mset (tasks_pool s') + mset (discarded e s) + mset (claimed rv e s) =
         mset (tasks_pool s) + mset (added e)"
proof (cases "e = Clear")
  case True
  with assms show ?thesis by (auto simp: clear_def split: if_splits)
next
  case False
  with assms have "claimed rv e s @ tasks_pool s' = tasks_pool s @ added e"
    by (rule step_fifo)
  then have "mset (claimed rv e s @ tasks_pool s') = mset (tasks_pool s @ added e)"
    by simp
  moreover from False have "discarded e s = []" by (cases e) simp_all
  ultimately show ?thesis by (simp add: ac_simps)
qed

lemma run_queue_conserves:
  "run rv es s = Some s' \<Longrightarrow>
   mset (tasks_pool s') + mset (discards rv es s) + mset (claims rv es s) =
   mset (tasks_pool s) + mset (submitted es)"
proof (induction es arbitrary: s)
  case Nil
  then show ?case by simp
next
  case (Cons e es)
  then obtain u where u: "step rv e s = Some u" and r: "run rv es u = Some s'"
    by (auto split: option.splits)
  have "mset (tasks_pool s') + (mset (discarded e s) + mset (discards rv es u)) +
          (mset (claimed rv e s) + mset (claims rv es u)) =
        mset (tasks_pool s) + (mset (added e) + mset (submitted es))"
    by (rule conserve_chain [OF Cons.IH [OF r] step_queue_conserves [OF u]])
  with u show ?case by (simp add: ac_simps)
qed

section \<open>Order of the claims\<close>

text \<open>
  Claim C8. Tasks are claimed in the order of their submission: a worker's step takes at
  most one task and it is the head of the queue, \<^verbatim>\<open>addTask\<close> appends at the tail,
  and over any schedule without \<^verbatim>\<open>clear()\<close> the tasks claimed so far, in the order
  of the claims, followed by the queue, are the tasks the queue held at first followed by
  the submitted ones in the order of their submission. This holds in the three revisions.
\<close>

theorem claims_are_fifo:
  "(spin rv i s = Some s' \<longrightarrow>
      claimed rv (Spin i) s @ tasks_pool s' = tasks_pool s \<and>
      length (claimed rv (Spin i) s) \<le> 1) \<and>
   (addTask rv t j s = Some s' \<longrightarrow> tasks_pool s' = tasks_pool s @ [t]) \<and>
   (run rv es s = Some s' \<longrightarrow> Clear \<notin> set es \<longrightarrow>
      claims rv es s @ tasks_pool s' = tasks_pool s @ submitted es)"
proof (intro conjI impI)
  assume "spin rv i s = Some s'"
  then show "claimed rv (Spin i) s @ tasks_pool s' = tasks_pool s"
    by (rule spin_fifo)
next
  show "length (claimed rv (Spin i) s) \<le> 1"
    by (simp split: spin_pc.splits)
next
  assume "addTask rv t j s = Some s'"
  then show "tasks_pool s' = tasks_pool s @ [t]"
    by (auto simp: addTask_def split: if_splits)
next
  assume "run rv es s = Some s'" "Clear \<notin> set es"
  then show "claims rv es s @ tasks_pool s' = tasks_pool s @ submitted es"
    by (rule run_fifo)
qed

text \<open>Two tasks are queued, 7 then 5; the worker claims 7 and leaves 5.\<close>

theorem claims_are_fifo_witness:
  "run Guarded [AddTask 7 0, AddTask 5 0, Invoke Start, Control, Control, Control,
      Spin 0, Spin 0, Spin 0, Spin 0] (ThreadPool 1)
     = Some \<lparr>threads_count = 1, tasks_pool = [5], guardian = None,
         threads_pool = [Claimed 7], alive = True, running_tasks_count = 0,
         caller = Idle, waiter = Away\<rparr> \<and>
   claims Guarded [AddTask 7 0, AddTask 5 0, Invoke Start, Control, Control, Control,
      Spin 0, Spin 0, Spin 0, Spin 0] (ThreadPool 1) @ [5] = [7, 5]"
proof -
  let ?es = "[AddTask 7 0, AddTask 5 0, Invoke Start, Control, Control, Control,
      Spin 0, Spin 0, Spin 0, Spin 0]"
  let ?s' = "\<lparr>threads_count = 1, tasks_pool = [5], guardian = None,
         threads_pool = [Claimed 7], alive = True, running_tasks_count = 0,
         caller = Idle, waiter = Away\<rparr>"
  have r: "run Guarded ?es (ThreadPool 1) = Some ?s'"
    by (simp add: ThreadPool_def step_defs)
  have c: "Clear \<notin> set ?es" by simp
  from claims_are_fifo [of Guarded 0 "ThreadPool 1" ?s' 0 0 ?es] r c
  have "claims Guarded ?es (ThreadPool 1) @ tasks_pool ?s' =
        tasks_pool (ThreadPool 1) @ submitted ?es"
    by blast
  with r show ?thesis by (simp add: ThreadPool_def)
qed

section \<open>Discarding\<close>

lemma run_completions_bound:
  assumes "run rv es s = Some s'" and "tasks_pool s = []"
  shows "mset (completions rv es s) \<subseteq># mset (held (threads_pool s)) + mset (submitted es)"
proof -
  have "mset (completions rv es s) \<subseteq>#
        mset (tasks_pool s') + mset (held (threads_pool s')) + mset (discards rv es s) +
          mset (completions rv es s)"
    by simp
  with run_conserves [OF assms(1)] assms(2) show ?thesis by simp
qed

lemma run_claims_bound:
  assumes "run rv es s = Some s'" and "tasks_pool s = []"
  shows "mset (claims rv es s) \<subseteq># mset (submitted es)"
proof -
  have "mset (claims rv es s) \<subseteq>#
        mset (tasks_pool s') + mset (discards rv es s) + mset (claims rv es s)"
    by simp
  with run_queue_conserves [OF assms(1)] assms(2) show ?thesis by simp
qed

text \<open>
  Claim C9. \<^verbatim>\<open>clear()\<close> runs with the mutex, leaves the queue empty and
  \<^verbatim>\<open>pending()\<close> at 0, and changes nothing else: the workers with the tasks they have
  claimed, the counter, the flag and the call in progress are as before. Whatever the
  schedule afterwards, the tasks claimed in it are among the tasks submitted in it, and
  the tasks completed in it are among the tasks that workers held when \<^verbatim>\<open>clear()\<close>
  ran and the tasks submitted in it (counted with multiplicity): none comes from the
  discarded queue. A worker that holds a task is never blocked: it counts the task, and
  \<^verbatim>\<open>run()\<close> returns to the decrement.
\<close>

theorem clear_discards_unclaimed:
  "clear s = Some s' \<longrightarrow>
     guardian s = None \<and> tasks_pool s' = [] \<and> pending s' = 0 \<and>
     s' = s\<lparr>tasks_pool := []\<rparr> \<and>
     threads_pool s' = threads_pool s \<and> running s' = running s \<and>
     status s' = status s \<and>
     (\<forall>es u. run rv es s' = Some u \<longrightarrow>
        mset (claims rv es s') \<subseteq># mset (submitted es) \<and>
        mset (completions rv es s') \<subseteq>#
          mset (held (threads_pool s)) + mset (submitted es)) \<and>
     (\<forall>i t. i < length (threads_pool s) \<and> threads_pool s ! i = Claimed t \<longrightarrow>
        spin rv i s' = Some (at i (Running t) (inc s'))) \<and>
     (\<forall>i t. i < length (threads_pool s) \<and> threads_pool s ! i = Running t \<longrightarrow>
        spin rv i s' = Some (at i Finished s'))"
proof
  assume c: "clear s = Some s'"
  then have g: "guardian s = None" and s': "s' = s\<lparr>tasks_pool := []\<rparr>"
    by (auto simp: clear_def split: if_splits)
  have q: "tasks_pool s' = []" and w: "threads_pool s' = threads_pool s"
    by (simp_all add: s')
  have after: "mset (claims rv es s') \<subseteq># mset (submitted es) \<and>
      mset (completions rv es s') \<subseteq># mset (held (threads_pool s)) + mset (submitted es)"
    if "run rv es s' = Some u" for es u
    using run_claims_bound [OF that q] run_completions_bound [OF that q] w by simp
  show "guardian s = None \<and> tasks_pool s' = [] \<and> pending s' = 0 \<and>
     s' = s\<lparr>tasks_pool := []\<rparr> \<and>
     threads_pool s' = threads_pool s \<and> running s' = running s \<and>
     status s' = status s \<and>
     (\<forall>es u. run rv es s' = Some u \<longrightarrow>
        mset (claims rv es s') \<subseteq># mset (submitted es) \<and>
        mset (completions rv es s') \<subseteq>#
          mset (held (threads_pool s)) + mset (submitted es)) \<and>
     (\<forall>i t. i < length (threads_pool s) \<and> threads_pool s ! i = Claimed t \<longrightarrow>
        spin rv i s' = Some (at i (Running t) (inc s'))) \<and>
     (\<forall>i t. i < length (threads_pool s) \<and> threads_pool s ! i = Running t \<longrightarrow>
        spin rv i s' = Some (at i Finished s'))"
    using g after by (simp add: s' pending_def running_def status_def spin_def)
qed

text \<open>
  Task 7 is claimed and 5 is queued when \<^verbatim>\<open>clear()\<close> runs; afterwards the worker runs
  7 to the end, finds the queue empty and parks: 5 is never claimed.
\<close>

theorem clear_discards_unclaimed_witness:
  "clear \<lparr>threads_count = 1, tasks_pool = [5], guardian = None,
         threads_pool = [Claimed 7], alive = True, running_tasks_count = 0,
         caller = Idle, waiter = Away\<rparr>
     = Some \<lparr>threads_count = 1, tasks_pool = [], guardian = None,
         threads_pool = [Claimed 7], alive = True, running_tasks_count = 0,
         caller = Idle, waiter = Away\<rparr> \<and>
   run Guarded [Spin 0, Spin 0, Spin 0, Spin 0, Spin 0, Spin 0, Spin 0]
       \<lparr>threads_count = 1, tasks_pool = [], guardian = None,
         threads_pool = [Claimed 7], alive = True, running_tasks_count = 0,
         caller = Idle, waiter = Away\<rparr>
     = Some \<lparr>threads_count = 1, tasks_pool = [], guardian = None,
         threads_pool = [Parked], alive = True, running_tasks_count = 0,
         caller = Idle, waiter = Away\<rparr> \<and>
   mset (completions Guarded [Spin 0, Spin 0, Spin 0, Spin 0, Spin 0, Spin 0, Spin 0]
       \<lparr>threads_count = 1, tasks_pool = [], guardian = None,
         threads_pool = [Claimed 7], alive = True, running_tasks_count = 0,
         caller = Idle, waiter = Away\<rparr>) \<subseteq># {#7#} \<and>
   mset (claims Guarded [Spin 0, Spin 0, Spin 0, Spin 0, Spin 0, Spin 0, Spin 0]
       \<lparr>threads_count = 1, tasks_pool = [], guardian = None,
         threads_pool = [Claimed 7], alive = True, running_tasks_count = 0,
         caller = Idle, waiter = Away\<rparr>) \<subseteq># {#}"
proof -
  let ?s = "\<lparr>threads_count = 1, tasks_pool = [5], guardian = None,
         threads_pool = [Claimed 7], alive = True, running_tasks_count = 0,
         caller = Idle, waiter = Away\<rparr>"
  let ?s' = "\<lparr>threads_count = 1, tasks_pool = [], guardian = None,
         threads_pool = [Claimed 7], alive = True, running_tasks_count = 0,
         caller = Idle, waiter = Away\<rparr>"
  let ?es = "[Spin 0, Spin 0, Spin 0, Spin 0, Spin 0, Spin 0, Spin 0]"
  let ?u = "\<lparr>threads_count = 1, tasks_pool = [], guardian = None,
         threads_pool = [Parked], alive = True, running_tasks_count = 0,
         caller = Idle, waiter = Away\<rparr>"
  have c: "clear ?s = Some ?s'"
    by (simp add: clear_def)
  have r: "run Guarded ?es ?s' = Some ?u"
    by (simp add: step_defs)
  from clear_discards_unclaimed [of ?s ?s' Guarded] c
  have "\<forall>es u. run Guarded es ?s' = Some u \<longrightarrow>
        mset (claims Guarded es ?s') \<subseteq># mset (submitted es) \<and>
        mset (completions Guarded es ?s') \<subseteq>#
          mset (held (threads_pool ?s)) + mset (submitted es)"
    by blast
  with r have "mset (claims Guarded ?es ?s') \<subseteq># mset (submitted ?es) \<and>
        mset (completions Guarded ?es ?s') \<subseteq>#
          mset (held (threads_pool ?s)) + mset (submitted ?es)"
    by blast
  then have "mset (claims Guarded ?es ?s') \<subseteq># {#} \<and>
        mset (completions Guarded ?es ?s') \<subseteq># {#7#}"
    by simp
  with c r show ?thesis by blast
qed

section \<open>A pool without threads\<close>

lemma step_threads_count:
  assumes "step rv e s = Some s'"
  shows "threads_count s' = threads_count s"
proof (cases e)
  case (Spin i)
  with assms show ?thesis using spin_frame [of rv i s s'] by simp
next
  case (Spurious i)
  with assms show ?thesis by (simp add: spurious_Some at_def)
next
  case (Invoke c)
  with assms have "invoke rv c s = Some s'" by (simp split: if_splits)
  then show ?thesis by (cases rule: invoke_cases) simp_all
next
  case Control
  with assms have "control s = Some s'" by simp
  then show ?thesis by (cases rule: control_cases) simp_all
next
  case (AddTask t j)
  with assms show ?thesis by (auto simp: addTask_def split: if_splits)
next
  case Clear
  with assms show ?thesis by (auto simp: clear_def split: if_splits)
next
  case Enter_wait
  with assms show ?thesis by (auto simp: enter_wait_def split: if_splits)
next
  case Wait
  with assms show ?thesis by (auto simp: waitForIdle_def split: if_splits wait_pc.splits)
qed

lemma call_inv_length: "call_inv s \<Longrightarrow> length (threads_pool s) \<le> threads_count s"
  by (cases "caller s") (auto simp: call_inv_def call_ok_def split: if_splits)

lemma no_threads:
  "pool_inv s \<Longrightarrow> threads_count s = 0 \<Longrightarrow> threads_pool s = []"
  using call_inv_length [of s] by (simp add: pool_inv_def)

lemma no_threads_idle:
  assumes "threads_pool s = []"
  shows "claimed rv e s = [] \<and> completed e s = []"
  using assms by (cases e) simp_all

lemma run_no_threads:
  "run rv es s = Some s' \<Longrightarrow> pool_inv s \<Longrightarrow> threads_count s = 0 \<Longrightarrow>
   threads_pool s' = [] \<and> claims rv es s = [] \<and> completions rv es s = []"
proof (induction es arbitrary: s)
  case Nil
  then show ?case by (simp add: no_threads)
next
  case (Cons e es)
  then obtain u where u: "step rv e s = Some u" and r: "run rv es u = Some s'"
    by (auto split: option.splits)
  from Cons.prems u have "pool_inv u" "threads_count u = 0"
    by (auto dest: pool_inv_step step_threads_count)
  with Cons.IH [OF r] have "threads_pool s' = [] \<and> claims rv es u = [] \<and> completions rv es u = []"
    by simp
  moreover from Cons.prems have "threads_pool s = []" by (simp add: no_threads)
  then have "claimed rv e s = [] \<and> completed e s = []" by (rule no_threads_idle)
  ultimately show ?case using u by simp
qed

text \<open>
  Claim C10. The constructor takes any count, 0 included, and gives a pool that is
  \<^verbatim>\<open>DOWN\<close> with nothing pending and nothing running. \<^verbatim>\<open>start()\<close> on the pool built
  with 0 sets the flag, so \<^verbatim>\<open>status()\<close> is \<^verbatim>\<open>UP\<close>, and leaves the loop that spawns
  at once: the vector stays empty. Whatever is done with this pool, it never has a thread,
  no task is ever claimed or completed, and without \<^verbatim>\<open>clear()\<close> every submitted task
  is still in the queue.
\<close>

theorem zero_threads_never_claims:
  "threads_count (ThreadPool 0) = 0 \<and> status (ThreadPool 0) = DOWN \<and>
   pending (ThreadPool 0) = 0 \<and> running (ThreadPool 0) = 0 \<and>
   run rv [Invoke Start, Control, Control] (ThreadPool 0) =
     Some ((ThreadPool 0)\<lparr>alive := True\<rparr>) \<and>
   status ((ThreadPool 0)\<lparr>alive := True\<rparr>) = UP \<and>
   threads_pool ((ThreadPool 0)\<lparr>alive := True\<rparr>) = [] \<and>
   (\<forall>es s. run rv es (ThreadPool 0) = Some s \<longrightarrow>
      threads_pool s = [] \<and> claims rv es (ThreadPool 0) = [] \<and>
      completions rv es (ThreadPool 0) = [] \<and>
      (Clear \<notin> set es \<longrightarrow> tasks_pool s = submitted es))"
proof -
  have start: "run rv [Invoke Start, Control, Control] (ThreadPool 0) =
     Some ((ThreadPool 0)\<lparr>alive := True\<rparr>)"
    by (simp add: ThreadPool_def start_def control_def)
  have never: "threads_pool s = [] \<and> claims rv es (ThreadPool 0) = [] \<and>
      completions rv es (ThreadPool 0) = [] \<and>
      (Clear \<notin> set es \<longrightarrow> tasks_pool s = submitted es)"
    if r: "run rv es (ThreadPool 0) = Some s" for es s
  proof -
    have "threads_count (ThreadPool 0) = 0" by (simp add: ThreadPool_def)
    with run_no_threads [OF r pool_inv_ThreadPool]
    have idle: "threads_pool s = [] \<and> claims rv es (ThreadPool 0) = [] \<and>
        completions rv es (ThreadPool 0) = []"
      by simp
    have "tasks_pool s = submitted es" if "Clear \<notin> set es"
      using run_fifo [OF r that] idle by (simp add: ThreadPool_def)
    with idle show ?thesis by simp
  qed
  from start never show ?thesis
    by (simp add: ThreadPool_def status_def pending_def running_def)
qed

text \<open>The pool built with 0 is started, then a task is submitted: it stays queued.\<close>

theorem zero_threads_never_claims_witness:
  "run Guarded [Invoke Start, Control, Control, AddTask 7 0] (ThreadPool 0)
     = Some \<lparr>threads_count = 0, tasks_pool = [7], guardian = None, threads_pool = [],
         alive = True, running_tasks_count = 0, caller = Idle, waiter = Away\<rparr> \<and>
   claims Guarded [Invoke Start, Control, Control, AddTask 7 0] (ThreadPool 0) = [] \<and>
   completions Guarded [Invoke Start, Control, Control, AddTask 7 0] (ThreadPool 0) = []"
proof -
  let ?es = "[Invoke Start, Control, Control, AddTask 7 0]"
  have r: "run Guarded ?es (ThreadPool 0)
     = Some \<lparr>threads_count = 0, tasks_pool = [7], guardian = None, threads_pool = [],
         alive = True, running_tasks_count = 0, caller = Idle, waiter = Away\<rparr>"
    by (simp add: ThreadPool_def step_defs)
  from zero_threads_never_claims [of Guarded] r
  have "claims Guarded ?es (ThreadPool 0) = [] \<and> completions Guarded ?es (ThreadPool 0) = []"
    by blast
  with r show ?thesis by blast
qed

section \<open>The counters\<close>

text \<open>
  Claim C2, as amended. In every state the pool can reach, \<^verbatim>\<open>pending()\<close> plus
  \<^verbatim>\<open>running()\<close> plus the number of workers between their dequeue and their increment
  is the number of tasks submitted and neither completed nor discarded, plus the number of
  workers between the return of \<^verbatim>\<open>run()\<close> and their decrement. The equation is
  written without subtraction.
\<close>

theorem counters_account_for_tasks:
  assumes "run rv es (ThreadPool n) = Some s"
  shows "pending s + running s + length (filter uncounted (threads_pool s)) +
           length (completions rv es (ThreadPool n)) + length (discards rv es (ThreadPool n)) =
         length (submitted es) + length (filter returned (threads_pool s))"
proof -
  from assms have "pool_inv s"
    by (rule pool_inv_run [OF pool_inv_ThreadPool])
  then have cnt: "running s = length (filter counted (threads_pool s))"
    by (simp add: pool_inv_def count_inv_def running_def)
  have "size (mset (tasks_pool s) + mset (held (threads_pool s)) +
              mset (discards rv es (ThreadPool n)) + mset (completions rv es (ThreadPool n))) =
        size (mset (tasks_pool (ThreadPool n)) + mset (held (threads_pool (ThreadPool n))) +
              mset (submitted es))"
    by (simp only: run_conserves [OF assms])
  then have "pending s + length (held (threads_pool s)) +
      length (discards rv es (ThreadPool n)) + length (completions rv es (ThreadPool n)) =
      length (submitted es)"
    by (simp add: ThreadPool_def pending_def)
  with cnt held_accounting [of "threads_pool s"] show ?thesis
    by simp
qed

text \<open>
  A worker has taken task 7 from the queue, run it, and not yet decremented the counter:
  \<^verbatim>\<open>running()\<close> still counts the completed task.
\<close>

theorem counters_account_for_tasks_witness:
  "run Yielding [AddTask 7 0, Invoke Start, Control, Control, Control, Spin 0, Spin 0,
       Spin 0, Spin 0, Spin 0] (ThreadPool 1)
     = Some \<lparr>threads_count = 1, tasks_pool = [], guardian = None,
         threads_pool = [Finished], alive = True, running_tasks_count = 1,
         caller = Idle, waiter = Away\<rparr> \<and>
   0 + 1 + 0 +
     length (completions Yielding [AddTask 7 0, Invoke Start, Control, Control, Control,
       Spin 0, Spin 0, Spin 0, Spin 0, Spin 0] (ThreadPool 1)) +
     length (discards Yielding [AddTask 7 0, Invoke Start, Control, Control, Control,
       Spin 0, Spin 0, Spin 0, Spin 0, Spin 0] (ThreadPool 1)) = 1 + (1::nat)"
proof -
  let ?es = "[AddTask 7 0, Invoke Start, Control, Control, Control, Spin 0, Spin 0,
       Spin 0, Spin 0, Spin 0]"
  have r: "run Yielding ?es (ThreadPool 1)
     = Some \<lparr>threads_count = 1, tasks_pool = [], guardian = None,
         threads_pool = [Finished], alive = True, running_tasks_count = 1,
         caller = Idle, waiter = Away\<rparr>"
    by (simp add: ThreadPool_def step_defs)
  from counters_account_for_tasks [OF r] r show ?thesis
    by (simp add: pending_def running_def)
qed

text \<open>
  Claim C2 as stated fails. One task is submitted, the pool is started, the worker
  dequeues the task and has released the mutex: nothing is pending, nothing is counted as
  running, and the task is neither completed nor discarded.
\<close>

theorem counters_miss_claimed_task:
  "run Guarded [AddTask 7 0, Invoke Start, Control, Control, Control, Spin 0, Spin 0,
       Spin 0, Spin 0] (ThreadPool 1)
     = Some \<lparr>threads_count = 1, tasks_pool = [], guardian = None,
         threads_pool = [Claimed 7], alive = True, running_tasks_count = 0,
         caller = Idle, waiter = Away\<rparr> \<and>
   pending \<lparr>threads_count = 1, tasks_pool = [], guardian = None,
         threads_pool = [Claimed 7], alive = True, running_tasks_count = 0,
         caller = Idle, waiter = Away\<rparr> +
   running \<lparr>threads_count = 1, tasks_pool = [], guardian = None,
         threads_pool = [Claimed 7], alive = True, running_tasks_count = 0,
         caller = Idle, waiter = Away\<rparr> = 0 \<and>
   submitted [AddTask 7 0, Invoke Start, Control, Control, Control, Spin 0, Spin 0,
       Spin 0, Spin 0] = [7] \<and>
   completions Guarded [AddTask 7 0, Invoke Start, Control, Control, Control, Spin 0,
       Spin 0, Spin 0, Spin 0] (ThreadPool 1) = [] \<and>
   discards Guarded [AddTask 7 0, Invoke Start, Control, Control, Control, Spin 0,
       Spin 0, Spin 0, Spin 0] (ThreadPool 1) = []"
  by (simp add: ThreadPool_def step_defs pending_def running_def)

section \<open>Waiting for idle\<close>

lemma step_keeps_empty:
  assumes "step rv e s = Some s'" and "added e = []" and "tasks_pool s = []"
  shows "tasks_pool s' = []"
proof (cases "e = Clear")
  case True
  with assms show ?thesis by (auto simp: clear_def split: if_splits)
next
  case False
  with assms(1) have "claimed rv e s @ tasks_pool s' = tasks_pool s @ added e"
    by (rule step_fifo)
  with assms show ?thesis by simp
qed

lemma run_keeps_empty:
  "run rv es s = Some s' \<Longrightarrow> \<forall>e \<in> set es. added e = [] \<Longrightarrow> tasks_pool s = [] \<Longrightarrow>
   tasks_pool s' = []"
proof (induction es arbitrary: s)
  case Nil
  then show ?case by simp
next
  case (Cons e es)
  then obtain u where u: "step rv e s = Some u" and r: "run rv es u = Some s'"
    by (auto split: option.splits)
  from Cons.prems have "added e = []" "\<forall>e \<in> set es. added e = []" by simp_all
  with Cons.IH [OF r] step_keeps_empty [OF u] Cons.prems(3) show ?case by simp
qed

lemma waitForIdle_cases:
  assumes "waitForIdle s = Some s'"
  obtains
    (pending) "waiter s = Test_pending" "guardian s = None" "tasks_pool s \<noteq> []"
      "s' = s\<lparr>waiter := Test_pending\<rparr>"
  | (drained) "waiter s = Test_pending" "guardian s = None" "tasks_pool s = []"
      "s' = s\<lparr>waiter := Test_running\<rparr>"
  | (running) "waiter s = Test_running" "running_tasks_count s \<noteq> 0"
      "s' = s\<lparr>waiter := Test_pending\<rparr>"
  | (idle) "waiter s = Test_running" "running_tasks_count s = 0"
      "s' = s\<lparr>waiter := Returned\<rparr>"
proof (cases "waiter s")
  case Away
  with assms show ?thesis by (simp add: waitForIdle_def)
next
  case Test_pending
  with assms have g: "guardian s = None"
    and s': "s' = s\<lparr>waiter := (if tasks_pool s \<noteq> [] then Test_pending else Test_running)\<rparr>"
    by (simp_all add: waitForIdle_def is_pending_def split: if_splits)
  show ?thesis
  proof (cases "tasks_pool s = []")
    case True
    with s' have "s' = s\<lparr>waiter := Test_running\<rparr>" by simp
    with Test_pending g True show ?thesis by (rule drained)
  next
    case False
    with s' have "s' = s\<lparr>waiter := Test_pending\<rparr>" by simp
    with Test_pending g False show ?thesis by (rule pending)
  qed
next
  case Test_running
  with assms
  have s': "s' = s\<lparr>waiter := (if running_tasks_count s \<noteq> 0 then Test_pending else Returned)\<rparr>"
    by (simp add: waitForIdle_def is_running_def)
  show ?thesis
  proof (cases "running_tasks_count s = 0")
    case True
    with s' have "s' = s\<lparr>waiter := Returned\<rparr>" by simp
    with Test_running True show ?thesis by (rule idle)
  next
    case False
    with s' have "s' = s\<lparr>waiter := Test_pending\<rparr>" by simp
    with Test_running False show ?thesis by (rule running)
  qed
next
  case Returned
  with assms show ?thesis by (simp add: waitForIdle_def)
qed

lemma step_waiter:
  assumes "step rv e s = Some s'" and "e \<noteq> Wait" and "e \<noteq> Enter_wait"
  shows "waiter s' = waiter s"
proof (cases e)
  case (Spin i)
  with assms show ?thesis using spin_frame [of rv i s s'] by simp
next
  case (Spurious i)
  with assms show ?thesis by (simp add: spurious_Some at_def)
next
  case (Invoke c)
  with assms have "invoke rv c s = Some s'" by (simp split: if_splits)
  then show ?thesis by (cases rule: invoke_cases) simp_all
next
  case Control
  with assms have "control s = Some s'" by simp
  then show ?thesis by (cases rule: control_cases) simp_all
next
  case (AddTask t j)
  with assms show ?thesis by (auto simp: addTask_def split: if_splits)
next
  case Clear
  with assms show ?thesis by (auto simp: clear_def split: if_splits)
next
  case Enter_wait
  with assms show ?thesis by simp
next
  case Wait
  with assms show ?thesis by simp
qed

text \<open>
  Claim C3, as amended. \<^verbatim>\<open>waitForIdle()\<close> returns only from a call of
  \<^verbatim>\<open>is_running()\<close> that found \<^verbatim>\<open>running()\<close> at 0, and it comes to that call only
  from a call of \<^verbatim>\<open>is_pending()\<close>, made with the mutex, that found \<^verbatim>\<open>pending()\<close>
  at 0; no step of another thread moves it there. The two calls are two steps. If no
  \<^verbatim>\<open>addTask\<close> takes effect between them, then at the second call \<^verbatim>\<open>pending()\<close>
  and \<^verbatim>\<open>running()\<close> are 0 together.
\<close>

theorem waitForIdle_two_reads:
  "(step rv e s = Some s' \<and> waiter s' = Test_running \<and> waiter s \<noteq> Test_running \<longrightarrow>
      e = Wait \<and> waiter s = Test_pending \<and> guardian s = None \<and> pending s = 0) \<and>
   (step rv e s = Some s' \<and> waiter s' = Returned \<and> waiter s \<noteq> Returned \<longrightarrow>
      e = Wait \<and> waiter s = Test_running \<and> running s = 0) \<and>
   (waitForIdle s1 = Some s2 \<and> waiter s2 = Test_running \<and>
    run rv es s2 = Some s3 \<and> (\<forall>e \<in> set es. added e = []) \<and>
    waitForIdle s3 = Some s4 \<and> waiter s4 = Returned \<longrightarrow>
      pending s3 = 0 \<and> running s3 = 0)"
proof -
  have wait: "e = Wait" if "step rv e s = Some s'" and "waiter s' \<noteq> waiter s"
    and "waiter s' \<noteq> Test_pending" for e s s'
  proof (rule ccontr)
    assume n: "e \<noteq> Wait"
    show False
    proof (cases "e = Enter_wait")
      case True
      with that show False by (auto simp: enter_wait_def split: if_splits)
    next
      case False
      with that n step_waiter [of rv e s s'] show False by simp
    qed
  qed
  have first: "e = Wait \<and> waiter s = Test_pending \<and> guardian s = None \<and> pending s = 0"
    if st: "step rv e s = Some s'" and t: "waiter s' = Test_running"
      and n: "waiter s \<noteq> Test_running" for e s s'
  proof -
    from st t n have e: "e = Wait" by (intro wait [of e s s']) simp_all
    with st have "waitForIdle s = Some s'" by simp
    then show ?thesis
      using t e by (cases rule: waitForIdle_cases) (simp_all add: pending_def)
  qed
  have second: "e = Wait \<and> waiter s = Test_running \<and> running s = 0"
    if st: "step rv e s = Some s'" and t: "waiter s' = Returned"
      and n: "waiter s \<noteq> Returned" for e s s'
  proof -
    from st t n have e: "e = Wait" by (intro wait [of e s s']) simp_all
    with st have "waitForIdle s = Some s'" by simp
    then show ?thesis
      using t e by (cases rule: waitForIdle_cases) (simp_all add: running_def)
  qed
  have both: "pending s3 = 0 \<and> running s3 = 0"
    if w1: "waitForIdle s1 = Some s2" and t1: "waiter s2 = Test_running"
      and r: "run rv es s2 = Some s3" and n: "\<forall>e \<in> set es. added e = []"
      and w2: "waitForIdle s3 = Some s4" and t2: "waiter s4 = Returned"
  proof -
    from w1 t1 have "tasks_pool s2 = []"
      by (cases rule: waitForIdle_cases) simp_all
    with r n have "tasks_pool s3 = []" by (rule run_keeps_empty)
    moreover from w2 t2 have "running_tasks_count s3 = 0"
      by (cases rule: waitForIdle_cases) simp_all
    ultimately show ?thesis by (simp add: pending_def running_def)
  qed
  from first [of e s s'] second [of e s s'] both show ?thesis by blast
qed

text \<open>
  The worker runs task 7 while \<^verbatim>\<open>waitForIdle()\<close> makes its first call; the task
  returns and is uncounted before the second call, and nothing is submitted in between.
\<close>

theorem waitForIdle_two_reads_witness:
  "waitForIdle \<lparr>threads_count = 1, tasks_pool = [], guardian = None,
         threads_pool = [Running 7], alive = True, running_tasks_count = 1,
         caller = Idle, waiter = Test_pending\<rparr>
     = Some \<lparr>threads_count = 1, tasks_pool = [], guardian = None,
         threads_pool = [Running 7], alive = True, running_tasks_count = 1,
         caller = Idle, waiter = Test_running\<rparr> \<and>
   run Guarded [Spin 0, Spin 0]
       \<lparr>threads_count = 1, tasks_pool = [], guardian = None,
         threads_pool = [Running 7], alive = True, running_tasks_count = 1,
         caller = Idle, waiter = Test_running\<rparr>
     = Some \<lparr>threads_count = 1, tasks_pool = [], guardian = None,
         threads_pool = [Head], alive = True, running_tasks_count = 0,
         caller = Idle, waiter = Test_running\<rparr> \<and>
   waitForIdle \<lparr>threads_count = 1, tasks_pool = [], guardian = None,
         threads_pool = [Head], alive = True, running_tasks_count = 0,
         caller = Idle, waiter = Test_running\<rparr>
     = Some \<lparr>threads_count = 1, tasks_pool = [], guardian = None,
         threads_pool = [Head], alive = True, running_tasks_count = 0,
         caller = Idle, waiter = Returned\<rparr> \<and>
   pending \<lparr>threads_count = 1, tasks_pool = [], guardian = None,
         threads_pool = [Head], alive = True, running_tasks_count = 0,
         caller = Idle, waiter = Test_running\<rparr> = 0 \<and>
   running \<lparr>threads_count = 1, tasks_pool = [], guardian = None,
         threads_pool = [Head], alive = True, running_tasks_count = 0,
         caller = Idle, waiter = Test_running\<rparr> = 0"
proof -
  let ?s1 = "\<lparr>threads_count = 1, tasks_pool = [], guardian = None,
         threads_pool = [Running 7], alive = True, running_tasks_count = 1,
         caller = Idle, waiter = Test_pending\<rparr>"
  let ?s2 = "\<lparr>threads_count = 1, tasks_pool = [], guardian = None,
         threads_pool = [Running 7], alive = True, running_tasks_count = 1,
         caller = Idle, waiter = Test_running\<rparr>"
  let ?s3 = "\<lparr>threads_count = 1, tasks_pool = [], guardian = None,
         threads_pool = [Head], alive = True, running_tasks_count = 0,
         caller = Idle, waiter = Test_running\<rparr>"
  let ?s4 = "\<lparr>threads_count = 1, tasks_pool = [], guardian = None,
         threads_pool = [Head], alive = True, running_tasks_count = 0,
         caller = Idle, waiter = Returned\<rparr>"
  let ?es = "[Spin 0, Spin 0]"
  have w1: "waitForIdle ?s1 = Some ?s2" by (simp add: step_defs)
  have r: "run Guarded ?es ?s2 = Some ?s3" by (simp add: step_defs)
  have n: "\<forall>e \<in> set ?es. added e = []" by simp
  have w2: "waitForIdle ?s3 = Some ?s4" by (simp add: step_defs)
  from waitForIdle_two_reads [of Guarded Wait ?s1 ?s2 ?s1 ?s2 ?es ?s3 ?s4] w1 r n w2
  have "pending ?s3 = 0 \<and> running ?s3 = 0" by simp
  with w1 r w2 show ?thesis by blast
qed

text \<open>
  Claim C3 as stated fails. The worker runs task 7 and \<^verbatim>\<open>waitForIdle()\<close> finds the
  queue empty; task 5 is submitted; task 7 returns and is uncounted;
  \<^verbatim>\<open>waitForIdle()\<close> finds the counter at 0 and returns, with task 5 pending. From the
  first call to the return there is no state in which both counts are 0.
\<close>

theorem waitForIdle_returns_while_pending:
  "run Guarded [AddTask 7 0, Invoke Start, Control, Control, Control, Spin 0, Spin 0,
       Spin 0, Spin 0, Spin 0, Enter_wait] (ThreadPool 1)
     = Some \<lparr>threads_count = 1, tasks_pool = [], guardian = None,
         threads_pool = [Running 7], alive = True, running_tasks_count = 1,
         caller = Idle, waiter = Test_pending\<rparr> \<and>
   run Guarded [Wait, AddTask 5 0]
       \<lparr>threads_count = 1, tasks_pool = [], guardian = None,
         threads_pool = [Running 7], alive = True, running_tasks_count = 1,
         caller = Idle, waiter = Test_pending\<rparr>
     = Some \<lparr>threads_count = 1, tasks_pool = [5], guardian = None,
         threads_pool = [Running 7], alive = True, running_tasks_count = 1,
         caller = Idle, waiter = Test_running\<rparr> \<and>
   run Guarded [Spin 0, Spin 0]
       \<lparr>threads_count = 1, tasks_pool = [5], guardian = None,
         threads_pool = [Running 7], alive = True, running_tasks_count = 1,
         caller = Idle, waiter = Test_running\<rparr>
     = Some \<lparr>threads_count = 1, tasks_pool = [5], guardian = None,
         threads_pool = [Head], alive = True, running_tasks_count = 0,
         caller = Idle, waiter = Test_running\<rparr> \<and>
   step Guarded Wait
       \<lparr>threads_count = 1, tasks_pool = [5], guardian = None,
         threads_pool = [Head], alive = True, running_tasks_count = 0,
         caller = Idle, waiter = Test_running\<rparr>
     = Some \<lparr>threads_count = 1, tasks_pool = [5], guardian = None,
         threads_pool = [Head], alive = True, running_tasks_count = 0,
         caller = Idle, waiter = Returned\<rparr> \<and>
   pending \<lparr>threads_count = 1, tasks_pool = [5], guardian = None,
         threads_pool = [Head], alive = True, running_tasks_count = 0,
         caller = Idle, waiter = Returned\<rparr> = 1"
  by (simp add: ThreadPool_def step_defs pending_def)

section \<open>Submitting\<close>

lemma polling_nth: "polling s \<Longrightarrow> i < length (threads_pool s) \<Longrightarrow> \<not> waits (threads_pool s ! i)"
  by (simp add: polling_def)

lemma idle_update:
  assumes "\<forall>k < length ws. \<not> waits (ws ! k)" and "\<not> waits p"
  shows "\<forall>k < length (ws[i := p]). \<not> waits (ws[i := p] ! k)"
proof (intro allI impI)
  fix k
  assume "k < length (ws[i := p])"
  with assms show "\<not> waits (ws[i := p] ! k)"
    by (cases "k = i") simp_all
qed

lemma polling_same: "polling s \<Longrightarrow> threads_pool s' = threads_pool s \<Longrightarrow> polling s'"
  by (simp add: polling_def)

lemma polling_spin:
  assumes "polling s" and "spin Yielding i s = Some s'"
  shows "polling s'"
  using assms(2)
proof (cases rule: spinE)
  case branch
  with assms(1) show ?thesis
    unfolding polling_def
    by (cases rule: branch_cases [of Yielding i s])
       (simp_all add: at_def leave_def idle_update)
next
  case pred
  with polling_nth [OF assms(1), of i] show ?thesis by simp
next
  case block
  with polling_nth [OF assms(1), of i] show ?thesis by simp
next
  case woken
  with polling_nth [OF assms(1), of i] show ?thesis by simp
qed (insert assms(1), simp_all add: polling_def at_def idle_update)

lemma polling_parked: "polling s \<Longrightarrow> parked (threads_pool s) = []"
  by (auto simp: polling_def parked_def filter_empty_conv)

lemma wake_idle: "\<not> waits p \<Longrightarrow> wake p = p"
  by (cases p) (simp_all add: wake_def)

lemma polling_notify_all: "polling s \<Longrightarrow> notify_all (threads_pool s) = threads_pool s"
  by (rule nth_equalityI) (simp_all add: polling_def wake_idle)

lemma polling_control:
  assumes "polling s" and "control s = Some s'"
  shows "polling s'"
  using assms(2)
proof (cases rule: control_cases)
  case (spawn i)
  with assms(1) show ?thesis by (auto simp: polling_def nth_append)
next
  case (notify sp)
  with assms(1) polling_notify_all [OF assms(1)] show ?thesis by (simp add: polling_def)
qed (insert assms(1), simp_all add: polling_def)

lemma polling_step:
  assumes "polling s" and "step Yielding e s = Some s'"
  shows "polling s'"
proof (cases e)
  case (Spin i)
  with assms show ?thesis by (simp add: polling_spin)
next
  case (Spurious i)
  with assms polling_nth [OF assms(1), of i] show ?thesis by (simp add: spurious_Some)
next
  case (Invoke c)
  with assms have "invoke Yielding c s = Some s'" by (simp split: if_splits)
  then have "threads_pool s' = threads_pool s" by (simp add: invoke_conserves)
  with assms(1) show ?thesis by (rule polling_same)
next
  case Control
  with assms show ?thesis by (simp add: polling_control)
next
  case (AddTask t j)
  with assms show ?thesis by (auto simp: addTask_def polling_def split: if_splits)
next
  case Clear
  with assms show ?thesis by (auto simp: clear_def polling_def split: if_splits)
next
  case Enter_wait
  with assms show ?thesis by (auto simp: enter_wait_def polling_def split: if_splits)
next
  case Wait
  with assms show ?thesis
    by (auto simp: waitForIdle_def polling_def split: if_splits wait_pc.splits)
qed

lemma polling_run: "polling s \<Longrightarrow> run Yielding es s = Some s' \<Longrightarrow> polling s'"
proof (induction es arbitrary: s)
  case Nil
  then show ?case by simp
next
  case (Cons e es)
  then show ?case by (auto split: option.splits dest: polling_step)
qed

lemma polling_ThreadPool: "polling (ThreadPool n)"
  by (simp add: polling_def ThreadPool_def)

lemma woken_unique:
  assumes "ws ! k = Parked" and "k < length ws" and "ws ! m = Parked" and "m < length ws"
    and "ws[k := Woken] = ws[m := Woken]"
  shows "m = k"
proof (rule ccontr)
  assume "m \<noteq> k"
  with assms(2) have "ws[m := Woken] ! k = ws ! k" by simp
  moreover from assms(2) have "ws[k := Woken] ! k = Woken" by simp
  ultimately show False using assms(1,5) by simp
qed

text \<open>
  Claim C6, as amended. \<^verbatim>\<open>addTask(t)\<close> runs with the mutex whether the flag is
  true or false, appends \<open>t\<close> at the tail of the queue, so that \<^verbatim>\<open>pending()\<close>
  grows by one, and
  changes no member but the queue and, by \<^verbatim>\<open>notify_one()\<close>, the workers: no worker
  changes when the pool is \<^verbatim>\<open>DOWN\<close> or none is blocked in the condition variable, and
  when the pool is \<^verbatim>\<open>UP\<close> and some worker is blocked there, exactly one blocked
  worker is unblocked and the others stay as they are (part_000, part_001). In
  thread_pool.cpp \<^verbatim>\<open>addTask\<close> notifies nobody, and no worker is ever blocked: the idle
  workers poll.
\<close>

theorem addTask_appends_wakes_one:
  "(addTask rv t j s \<noteq> None \<longleftrightarrow> guardian s = None) \<and>
   (addTask rv t j s = Some s' \<longrightarrow>
      tasks_pool s' = tasks_pool s @ [t] \<and> pending s' = pending s + 1 \<and>
      s' = s\<lparr>tasks_pool := tasks_pool s @ [t], threads_pool := threads_pool s'\<rparr> \<and>
      (status s = DOWN \<or> rv = Yielding \<or> parked (threads_pool s) = [] \<longrightarrow>
         threads_pool s' = threads_pool s) \<and>
      (status s = UP \<and> rv \<noteq> Yielding \<and> parked (threads_pool s) \<noteq> [] \<longrightarrow>
         (\<exists>!k. k < length (threads_pool s) \<and> threads_pool s ! k = Parked \<and>
               threads_pool s' = (threads_pool s)[k := Woken]))) \<and>
   (run Yielding es (ThreadPool n) = Some s \<longrightarrow> parked (threads_pool s) = [])"
proof -
  have enabled: "addTask rv t j s \<noteq> None \<longleftrightarrow> guardian s = None"
    by (simp add: addTask_def)
  have effect: "tasks_pool s' = tasks_pool s @ [t] \<and> pending s' = pending s + 1 \<and>
      s' = s\<lparr>tasks_pool := tasks_pool s @ [t], threads_pool := threads_pool s'\<rparr> \<and>
      (status s = DOWN \<or> rv = Yielding \<or> parked (threads_pool s) = [] \<longrightarrow>
         threads_pool s' = threads_pool s) \<and>
      (status s = UP \<and> rv \<noteq> Yielding \<and> parked (threads_pool s) \<noteq> [] \<longrightarrow>
         (\<exists>!k. k < length (threads_pool s) \<and> threads_pool s ! k = Parked \<and>
               threads_pool s' = (threads_pool s)[k := Woken]))"
    if a: "addTask rv t j s = Some s'"
  proof -
    from a have s': "s' = s\<lparr>tasks_pool := tasks_pool s @ [t],
        threads_pool := (if rv \<noteq> Yielding \<and> alive s
                         then notify_one j (threads_pool s) else threads_pool s)\<rparr>"
      by (auto simp: addTask_def split: if_splits)
    have quiet: "threads_pool s' = threads_pool s"
      if "status s = DOWN \<or> rv = Yielding \<or> parked (threads_pool s) = []"
      using that s' by (auto simp: status_def notify_one_def split: if_splits)
    have one: "\<exists>!k. k < length (threads_pool s) \<and> threads_pool s ! k = Parked \<and>
               threads_pool s' = (threads_pool s)[k := Woken]"
      if up: "status s = UP \<and> rv \<noteq> Yielding \<and> parked (threads_pool s) \<noteq> []"
    proof -
      from up s' have n: "threads_pool s' = notify_one j (threads_pool s)"
        by (simp add: status_def split: if_splits)
      show ?thesis
      proof (rule notify_one_cases [of "threads_pool s" j])
        assume "parked (threads_pool s) = []"
        with up show ?thesis by simp
      next
        fix k
        assume k: "k < length (threads_pool s)" "threads_pool s ! k = Parked"
          "notify_one j (threads_pool s) = (threads_pool s)[k := Woken]"
        show ?thesis
        proof (rule ex1I [of _ k])
          from k n show "k < length (threads_pool s) \<and> threads_pool s ! k = Parked \<and>
              threads_pool s' = (threads_pool s)[k := Woken]"
            by simp
        next
          fix m
          assume "m < length (threads_pool s) \<and> threads_pool s ! m = Parked \<and>
              threads_pool s' = (threads_pool s)[m := Woken]"
          with k n show "m = k"
            using woken_unique [of "threads_pool s" k m] by simp
        qed
      qed
    qed
    from s' quiet one show ?thesis by (simp add: pending_def)
  qed
  have never: "parked (threads_pool s) = []" if "run Yielding es (ThreadPool n) = Some s"
    using polling_run [OF polling_ThreadPool that] by (rule polling_parked)
  from enabled effect never show ?thesis by blast
qed

text \<open>
  Two workers are blocked in the condition variable of a pool that is \<^verbatim>\<open>UP\<close>;
  \<^verbatim>\<open>addTask(7)\<close> unblocks the second one (the choice 1) and leaves the first blocked.
\<close>

theorem addTask_appends_wakes_one_witness:
  "addTask Guarded 7 1
       \<lparr>threads_count = 2, tasks_pool = [], guardian = None,
         threads_pool = [Parked, Parked], alive = True, running_tasks_count = 0,
         caller = Idle, waiter = Away\<rparr>
     = Some \<lparr>threads_count = 2, tasks_pool = [7], guardian = None,
         threads_pool = [Parked, Woken], alive = True, running_tasks_count = 0,
         caller = Idle, waiter = Away\<rparr> \<and>
   pending \<lparr>threads_count = 2, tasks_pool = [7], guardian = None,
         threads_pool = [Parked, Woken], alive = True, running_tasks_count = 0,
         caller = Idle, waiter = Away\<rparr> = 1 \<and>
   (\<exists>!k. k < length [Parked, Parked] \<and> [Parked, Parked] ! k = Parked \<and>
          [Parked, Woken] = [Parked, Parked][k := Woken])"
proof -
  let ?s = "\<lparr>threads_count = 2, tasks_pool = [], guardian = None,
         threads_pool = [Parked, Parked], alive = True, running_tasks_count = 0,
         caller = Idle, waiter = Away\<rparr>"
  let ?s' = "\<lparr>threads_count = 2, tasks_pool = [7], guardian = None,
         threads_pool = [Parked, Woken], alive = True, running_tasks_count = 0,
         caller = Idle, waiter = Away\<rparr>"
  have a: "addTask Guarded 7 1 ?s = Some ?s'"
    by (simp add: step_defs)
  have p: "parked (threads_pool ?s) \<noteq> []"
    by (simp add: parked_def)
  from addTask_appends_wakes_one [of Guarded 7 1 ?s ?s'] a p
  have "pending ?s' = pending ?s + 1 \<and>
        (\<exists>!k. k < length (threads_pool ?s) \<and> threads_pool ?s ! k = Parked \<and>
               threads_pool ?s' = (threads_pool ?s)[k := Woken])"
    by (simp add: status_def)
  then have "\<exists>!k. k < length [Parked, Parked] \<and> [Parked, Parked] ! k = Parked \<and>
          [Parked, Woken] = [Parked, Parked][k := Woken]"
    by (simp only: pool.select_convs)
  moreover have "pending ?s' = 1"
    by (simp add: pending_def)
  ultimately show ?thesis using a by blast
qed

text \<open>
  Claim C6 as stated fails in thread_pool.cpp. A pool of two threads is started and both
  workers have passed the loop test with the queue empty: they are idle, and they poll.
  \<^verbatim>\<open>addTask(7)\<close> on this pool, which is \<^verbatim>\<open>UP\<close>, appends the task and changes no
  worker: there is no \<^verbatim>\<open>notify_one()\<close> in this revision and nobody to unblock.
\<close>

theorem addTask_polling_wakes_nobody:
  "run Yielding [Invoke Start, Control, Control, Control, Control, Spin 0, Spin 1]
       (ThreadPool 2)
     = Some \<lparr>threads_count = 2, tasks_pool = [], guardian = None,
         threads_pool = [Lock, Lock], alive = True, running_tasks_count = 0,
         caller = Idle, waiter = Away\<rparr> \<and>
   status \<lparr>threads_count = 2, tasks_pool = [], guardian = None,
         threads_pool = [Lock, Lock], alive = True, running_tasks_count = 0,
         caller = Idle, waiter = Away\<rparr> = UP \<and>
   addTask Yielding 7 0
       \<lparr>threads_count = 2, tasks_pool = [], guardian = None,
         threads_pool = [Lock, Lock], alive = True, running_tasks_count = 0,
         caller = Idle, waiter = Away\<rparr>
     = Some \<lparr>threads_count = 2, tasks_pool = [7], guardian = None,
         threads_pool = [Lock, Lock], alive = True, running_tasks_count = 0,
         caller = Idle, waiter = Away\<rparr> \<and>
   parked [Lock, Lock] = []"
  by (simp add: ThreadPool_def step_defs status_def)

section \<open>Starting\<close>

lemma run_threads_count:
  "run rv es s = Some s' \<Longrightarrow> threads_count s' = threads_count s"
proof (induction es arbitrary: s)
  case Nil
  then show ?case by simp
next
  case (Cons e es)
  then show ?case by (auto split: option.splits dest: step_threads_count)
qed

text \<open>
  Claim C7. \<^verbatim>\<open>start()\<close> leaves the pool as it is when the flag is true. When the
  flag is false and the vector still holds threads, it enters \<^verbatim>\<open>clean_up()\<close> under the
  very condition under which \<^verbatim>\<open>joinAll()\<close> does, and gets through it exactly as
  \<^verbatim>\<open>joinAll()\<close> does: only when every thread of the vector has left \<^verbatim>\<open>spin()\<close>, and
  with the vector emptied. Only then does it set the flag and spawn. In every state the
  pool can reach: at \<^verbatim>\<open>alive_ = true\<close> the flag is still false and the vector is empty;
  while spawning, the vector holds exactly the \<open>i\<close> threads spawned so far, each started
  at the loop test of \<^verbatim>\<open>spin()\<close>; when \<^verbatim>\<open>start()\<close> returns from the loop the vector
  holds exactly \<^verbatim>\<open>threads_count_\<close> threads and the pool is \<^verbatim>\<open>UP\<close>; and the vector
  never holds more than \<^verbatim>\<open>threads_count_\<close> threads, so the threads of two starts never
  coexist.
\<close>

theorem start_joins_then_spawns:
  "(caller s = Idle \<and> alive s \<longrightarrow> step rv (Invoke Start) s = Some s) \<and>
   (caller s = Idle \<and> \<not> alive s \<and> threads_pool s \<noteq> [] \<longrightarrow>
      step rv (Invoke Start) s = Some (s\<lparr>caller := Start_clean\<rparr>) \<and>
      step rv (Invoke JoinAll) s = Some (s\<lparr>caller := Join_clean\<rparr>) \<and>
      map_option threads_pool (control (s\<lparr>caller := Start_clean\<rparr>)) =
        map_option threads_pool (control (s\<lparr>caller := Join_clean\<rparr>))) \<and>
   (caller s = Idle \<and> \<not> alive s \<and> threads_pool s = [] \<longrightarrow>
      step rv (Invoke Start) s = Some (s\<lparr>caller := Start_alive\<rparr>)) \<and>
   (caller s = Start_clean \<and> control s = Some s' \<longrightarrow>
      list_all (\<lambda>p. p = Exited) (threads_pool s) \<and>
      s' = s\<lparr>threads_pool := [], caller := Start_alive\<rparr>) \<and>
   (caller s = Start_alive \<longrightarrow>
      control s = Some (s\<lparr>alive := True, caller := Start_spawn 0\<rparr>)) \<and>
   (caller s = Start_spawn i \<and> i < threads_count s \<longrightarrow>
      control s =
        Some (s\<lparr>threads_pool := threads_pool s @ [Head], caller := Start_spawn (Suc i)\<rparr>)) \<and>
   (caller s = Start_spawn i \<and> \<not> i < threads_count s \<longrightarrow>
      control s = Some (s\<lparr>caller := Idle\<rparr>)) \<and>
   (run rv es (ThreadPool n) = Some s \<longrightarrow>
      threads_count s = n \<and> length (threads_pool s) \<le> n \<and>
      (caller s = Start_alive \<longrightarrow> \<not> alive s \<and> threads_pool s = []) \<and>
      (caller s = Start_spawn i \<longrightarrow> alive s \<and> length (threads_pool s) = i \<and> i \<le> n) \<and>
      (caller s = Start_spawn i \<and> control s = Some s' \<and> caller s' = Idle \<longrightarrow>
         length (threads_pool s') = n \<and> status s' = UP))"
proof -
  have noop: "caller s = Idle \<and> alive s \<longrightarrow> step rv (Invoke Start) s = Some s"
    by (simp add: start_def)
  have join: "caller s = Idle \<and> \<not> alive s \<and> threads_pool s \<noteq> [] \<longrightarrow>
      step rv (Invoke Start) s = Some (s\<lparr>caller := Start_clean\<rparr>) \<and>
      step rv (Invoke JoinAll) s = Some (s\<lparr>caller := Join_clean\<rparr>) \<and>
      map_option threads_pool (control (s\<lparr>caller := Start_clean\<rparr>)) =
        map_option threads_pool (control (s\<lparr>caller := Join_clean\<rparr>))"
    by (simp add: start_def joinAll_def control_def clean_up_def)
  have fresh: "caller s = Idle \<and> \<not> alive s \<and> threads_pool s = [] \<longrightarrow>
      step rv (Invoke Start) s = Some (s\<lparr>caller := Start_alive\<rparr>)"
    by (simp add: start_def)
  have clean: "caller s = Start_clean \<and> control s = Some s' \<longrightarrow>
      list_all (\<lambda>p. p = Exited) (threads_pool s) \<and>
      s' = s\<lparr>threads_pool := [], caller := Start_alive\<rparr>"
    by (auto simp: control_def clean_up_Some)
  have flag: "caller s = Start_alive \<longrightarrow>
      control s = Some (s\<lparr>alive := True, caller := Start_spawn 0\<rparr>)"
    by (simp add: control_def)
  have spawn: "caller s = Start_spawn i \<and> i < threads_count s \<longrightarrow>
      control s =
        Some (s\<lparr>threads_pool := threads_pool s @ [Head], caller := Start_spawn (Suc i)\<rparr>)"
    by (simp add: control_def)
  have over: "caller s = Start_spawn i \<and> \<not> i < threads_count s \<longrightarrow>
      control s = Some (s\<lparr>caller := Idle\<rparr>)"
    by (simp add: control_def)
  have reach: "run rv es (ThreadPool n) = Some s \<longrightarrow>
      threads_count s = n \<and> length (threads_pool s) \<le> n \<and>
      (caller s = Start_alive \<longrightarrow> \<not> alive s \<and> threads_pool s = []) \<and>
      (caller s = Start_spawn i \<longrightarrow> alive s \<and> length (threads_pool s) = i \<and> i \<le> n) \<and>
      (caller s = Start_spawn i \<and> control s = Some s' \<and> caller s' = Idle \<longrightarrow>
         length (threads_pool s') = n \<and> status s' = UP)"
  proof
    assume r: "run rv es (ThreadPool n) = Some s"
    from r have n: "threads_count s = n"
      using run_threads_count [OF r] by (simp add: ThreadPool_def)
    from r have "pool_inv s" by (rule pool_inv_run [OF pool_inv_ThreadPool])
    then have c: "call_ok (caller s) (alive s) (length (threads_pool s)) n"
      and l: "length (threads_pool s) \<le> n"
      using n call_inv_length [of s] by (simp_all add: pool_inv_def call_inv_def)
    have "length (threads_pool s') = n \<and> status s' = UP"
      if "caller s = Start_spawn i" and "control s = Some s'" and "caller s' = Idle"
      using that c n by (auto simp: control_def call_ok_def status_def split: if_splits)
    with c n l show "threads_count s = n \<and> length (threads_pool s) \<le> n \<and>
      (caller s = Start_alive \<longrightarrow> \<not> alive s \<and> threads_pool s = []) \<and>
      (caller s = Start_spawn i \<longrightarrow> alive s \<and> length (threads_pool s) = i \<and> i \<le> n) \<and>
      (caller s = Start_spawn i \<and> control s = Some s' \<and> caller s' = Idle \<longrightarrow>
         length (threads_pool s') = n \<and> status s' = UP)"
      by (auto simp: call_ok_def)
  qed
  from noop join fresh clean flag spawn over reach show ?thesis
    by (intro conjI)
qed

text \<open>
  A pool of two threads is stopped with \<^verbatim>\<open>ASYNC\<close> while both workers are blocked in
  the condition variable, and started again at once: \<^verbatim>\<open>start()\<close> stays in
  \<^verbatim>\<open>clean_up()\<close> until both workers have exited, then spawns two new ones.
\<close>

theorem start_joins_then_spawns_witness:
  "run Guarded [Invoke Start, Control, Control, Control, Control, Spin 0, Spin 0, Spin 0,
       Spin 0, Spin 1, Spin 1, Spin 1, Spin 1, Invoke (Stop ASYNC), Control, Invoke Start,
       Spin 0, Spin 0, Spin 0, Spin 0, Spin 1, Spin 1, Spin 1, Spin 1, Control, Control,
       Control, Control] (ThreadPool 2)
     = Some \<lparr>threads_count = 2, tasks_pool = [], guardian = None,
         threads_pool = [Head, Head], alive = True, running_tasks_count = 0,
         caller = Start_spawn 2, waiter = Away\<rparr> \<and>
   control \<lparr>threads_count = 2, tasks_pool = [], guardian = None,
         threads_pool = [Head, Head], alive = True, running_tasks_count = 0,
         caller = Start_spawn 2, waiter = Away\<rparr>
     = Some \<lparr>threads_count = 2, tasks_pool = [], guardian = None,
         threads_pool = [Head, Head], alive = True, running_tasks_count = 0,
         caller = Idle, waiter = Away\<rparr> \<and>
   length [Head, Head :: spin_pc] = 2 \<and>
   status \<lparr>threads_count = 2, tasks_pool = [], guardian = None,
         threads_pool = [Head, Head], alive = True, running_tasks_count = 0,
         caller = Idle, waiter = Away\<rparr> = UP"
proof -
  let ?es = "[Invoke Start, Control, Control, Control, Control, Spin 0, Spin 0, Spin 0,
       Spin 0, Spin 1, Spin 1, Spin 1, Spin 1, Invoke (Stop ASYNC), Control, Invoke Start,
       Spin 0, Spin 0, Spin 0, Spin 0, Spin 1, Spin 1, Spin 1, Spin 1, Control, Control,
       Control, Control]"
  let ?s = "\<lparr>threads_count = 2, tasks_pool = [], guardian = None,
         threads_pool = [Head, Head], alive = True, running_tasks_count = 0,
         caller = Start_spawn 2, waiter = Away\<rparr>"
  let ?s' = "\<lparr>threads_count = 2, tasks_pool = [], guardian = None,
         threads_pool = [Head, Head], alive = True, running_tasks_count = 0,
         caller = Idle, waiter = Away\<rparr>"
  have r: "run Guarded ?es (ThreadPool 2) = Some ?s"
    by (simp add: ThreadPool_def step_defs)
  have c: "control ?s = Some ?s'"
    by (simp add: control_def)
  from start_joins_then_spawns [of ?s Guarded ?s' 2 ?es 2] r c
  have "length (threads_pool ?s') = 2 \<and> status ?s' = UP"
    by simp
  with r c show ?thesis by simp
qed

section \<open>The flag and the condition variable in part_001\<close>

lemma signalled_update:
  assumes "signalled s" and "alive s' = alive s" and "caller s' = caller s"
    and "threads_pool s' = (threads_pool s)[i := p]"
    and "\<not> alive s \<longrightarrow> p \<noteq> Block \<and> p \<noteq> Parked"
  shows "signalled s'"
  unfolding signalled_def
proof (intro impI allI)
  fix k
  assume d: "\<not> alive s'" and k: "k < length (threads_pool s')"
  show "threads_pool s' ! k \<noteq> Block \<and>
        ((\<forall>sp. caller s' \<noteq> Stop_notify sp) \<longrightarrow> threads_pool s' ! k \<noteq> Parked)"
  proof (cases "k = i")
    case True
    with assms d k show ?thesis by simp
  next
    case False
    with assms d k show ?thesis by (simp add: signalled_def)
  qed
qed

lemma signalled_same:
  "signalled s \<Longrightarrow> alive s' = alive s \<Longrightarrow> caller s' = caller s \<Longrightarrow>
   threads_pool s' = threads_pool s \<Longrightarrow> signalled s'"
  by (simp add: signalled_def)

lemma signalled_spin:
  assumes "signalled s" and "spin rv i s = Some s'"
  shows "signalled s'"
  using assms(2)
proof (cases rule: spinE)
  case branch
  with assms(1) show ?thesis
    by (cases rule: branch_cases [of rv i s])
       (auto simp: at_def leave_def intro: signalled_update)
next
  case block
  with assms(1) have "alive s" by (auto simp: signalled_def)
  with block show ?thesis by (simp add: signalled_def at_def)
qed (insert assms(1), auto simp: at_def intro: signalled_update)

lemma wake_awake [simp]: "wake p \<noteq> Parked"
  by (simp add: wake_def)

lemma wake_Block [simp]: "wake p = Block \<longleftrightarrow> p = Block"
  by (simp add: wake_def)

lemma signalled_control:
  assumes "signalled s" and "control s = Some s'"
  shows "signalled s'"
  using assms(2)
proof (cases rule: control_cases)
  case (clean c)
  then show ?thesis by (simp add: signalled_def)
next
  case alive
  then show ?thesis by (simp add: signalled_def)
next
  case (spawn i)
  with assms(1) show ?thesis by (auto simp: signalled_def nth_append)
next
  case (started i)
  with assms(1) show ?thesis by (simp add: signalled_def)
next
  case (notify sp)
  with assms(1) show ?thesis by (simp add: signalled_def)
qed

lemma lock_inv_free:
  "lock_inv s \<Longrightarrow> guardian s = None \<Longrightarrow> i < length (threads_pool s) \<Longrightarrow>
   \<not> holding (threads_pool s ! i)"
  by (simp add: lock_inv_def)

lemma signalled_invoke:
  assumes "signalled s" and "lock_inv s" and "caller s = Idle"
    and "invoke Guarded c s = Some s'"
  shows "signalled s'"
  using assms(4)
proof (cases rule: invoke_cases)
  case (stop_guarded sp)
  have "threads_pool s ! i \<noteq> Block" if "i < length (threads_pool s)" for i
    using lock_inv_free [OF assms(2) stop_guarded(3) that] by auto
  with stop_guarded show ?thesis by (simp add: signalled_def)
qed (insert assms(1,3), simp_all add: signalled_def)

lemma signalled_addTask:
  assumes "signalled s" and "addTask rv t j s = Some s'"
  shows "signalled s'"
proof -
  from assms(2) have s': "s' = s\<lparr>tasks_pool := tasks_pool s @ [t],
      threads_pool := (if rv \<noteq> Yielding \<and> alive s
                       then notify_one j (threads_pool s) else threads_pool s)\<rparr>"
    by (auto simp: addTask_def split: if_splits)
  show ?thesis
  proof (rule notify_one_cases [of "threads_pool s" j])
    assume "notify_one j (threads_pool s) = threads_pool s"
    with s' assms(1) show ?thesis by (simp add: signalled_def)
  next
    fix k
    assume "notify_one j (threads_pool s) = (threads_pool s)[k := Woken]"
    with s' assms(1) show ?thesis
      by (cases "rv \<noteq> Yielding \<and> alive s")
         (auto intro: signalled_update signalled_same)
  qed
qed

lemma signalled_step:
  assumes "signalled s" and "lock_inv s" and "step Guarded e s = Some s'"
  shows "signalled s'"
proof (cases e)
  case (Spin i)
  with assms show ?thesis by (simp add: signalled_spin)
next
  case (Spurious i)
  with assms show ?thesis
    by (auto simp: spurious_Some at_def intro: signalled_update)
next
  case (Invoke c)
  with assms have "caller s = Idle" "invoke Guarded c s = Some s'"
    by (simp_all split: if_splits)
  with assms(1,2) show ?thesis by (rule signalled_invoke)
next
  case Control
  with assms show ?thesis by (simp add: signalled_control)
next
  case (AddTask t j)
  with assms show ?thesis by (simp add: signalled_addTask)
next
  case Clear
  with assms show ?thesis by (auto simp: clear_def signalled_def split: if_splits)
next
  case Enter_wait
  with assms show ?thesis by (auto simp: enter_wait_def signalled_def split: if_splits)
next
  case Wait
  with assms show ?thesis
    by (auto simp: waitForIdle_def signalled_def split: if_splits wait_pc.splits)
qed

lemma signalled_run:
  "signalled s \<Longrightarrow> pool_inv s \<Longrightarrow> run Guarded es s = Some s' \<Longrightarrow> signalled s'"
proof (induction es arbitrary: s)
  case Nil
  then show ?case by simp
next
  case (Cons e es)
  then obtain u where u: "step Guarded e s = Some u" and r: "run Guarded es u = Some s'"
    by (auto split: option.splits)
  from Cons.prems(2) u have "pool_inv u" by (rule pool_inv_step)
  moreover from Cons.prems(2) have "lock_inv s" by (simp add: pool_inv_def)
  with Cons.prems(1) have "signalled u" using u by (rule signalled_step)
  ultimately show ?case using r by (simp add: Cons.IH)
qed

lemma signalled_ThreadPool: "signalled (ThreadPool n)"
  by (simp add: signalled_def ThreadPool_def)

text \<open>
  part_001: in every state the pool can reach, once the flag is false and
  \<^verbatim>\<open>notify_all()\<close> of \<^verbatim>\<open>stop\<close> has run, no worker is blocked in the condition
  variable or about to block there.
\<close>

lemma guarded_stop_reaches_all:
  assumes "run Guarded es (ThreadPool n) = Some s" and "\<not> alive s"
    and "\<forall>sp. caller s \<noteq> Stop_notify sp" and "i < length (threads_pool s)"
  shows "threads_pool s ! i \<noteq> Parked \<and> threads_pool s ! i \<noteq> Block"
  using signalled_run [OF signalled_ThreadPool pool_inv_ThreadPool assms(1)] assms(2-4)
  by (simp add: signalled_def)

lemma sound_update:
  assumes "sound s" and "alive s' = alive s" and "tasks_pool s' = tasks_pool s"
    and "threads_pool s' = (threads_pool s)[i := p]"
    and "p \<noteq> Faulted" and "p = Branch \<longrightarrow> alive s \<longrightarrow> tasks_pool s \<noteq> []"
  shows "sound s'"
  unfolding sound_def
proof (intro impI allI)
  fix k
  assume k: "k < length (threads_pool s')"
  show "threads_pool s' ! k \<noteq> Faulted \<and>
        (threads_pool s' ! k = Branch \<longrightarrow> alive s' \<longrightarrow> tasks_pool s' \<noteq> [])"
  proof (cases "k = i")
    case True
    with assms k show ?thesis by simp
  next
    case False
    with assms k show ?thesis by (simp add: sound_def)
  qed
qed

lemma lock_inv_holder:
  "lock_inv s \<Longrightarrow> i < length (threads_pool s) \<Longrightarrow> holding (threads_pool s ! i) \<Longrightarrow>
   k < length (threads_pool s) \<Longrightarrow> holding (threads_pool s ! k) \<Longrightarrow> k = i"
  by (simp add: lock_inv_def)

lemma sound_dequeue:
  assumes "sound s" and "lock_inv s" and "i < length (threads_pool s)"
    and "threads_pool s ! i = Branch"
    and "threads_pool s' = (threads_pool s)[i := p]" and "p \<noteq> Faulted" and "p \<noteq> Branch"
  shows "sound s'"
  unfolding sound_def
proof (intro impI allI)
  fix k
  assume k: "k < length (threads_pool s')"
  show "threads_pool s' ! k \<noteq> Faulted \<and>
        (threads_pool s' ! k = Branch \<longrightarrow> alive s' \<longrightarrow> tasks_pool s' \<noteq> [])"
  proof (cases "k = i")
    case True
    with assms k show ?thesis by simp
  next
    case False
    with assms(5) k have n: "threads_pool s' ! k = threads_pool s ! k"
      and k': "k < length (threads_pool s)" by simp_all
    have "threads_pool s ! k \<noteq> Branch"
    proof
      assume "threads_pool s ! k = Branch"
      with lock_inv_holder [OF assms(2,3) _ k'] assms(4) False show False by simp
    qed
    with n k' assms(1) show ?thesis by (simp add: sound_def)
  qed
qed

lemma sound_spin:
  assumes "sound s" and "lock_inv s" and "spin Guarded i s = Some s'"
  shows "sound s'"
  using assms(3)
proof (cases rule: spinE)
  case branch
  show ?thesis
  proof (cases rule: branch_cases [of Guarded i s])
    case leave
    with branch assms(1,2) show ?thesis
      by (auto simp: leave_def at_def intro: sound_dequeue)
  next
    case (dequeue t q)
    with branch assms(1,2) show ?thesis
      by (auto simp: at_def intro: sound_dequeue)
  next
    case fault
    with branch assms(1) show ?thesis by (simp add: sound_def)
  qed
qed (insert assms(1), auto simp: at_def intro: sound_update)

lemma wake_Faulted [simp]: "wake p = Faulted \<longleftrightarrow> p = Faulted"
  by (simp add: wake_def)

lemma wake_Branch [simp]: "wake p = Branch \<longleftrightarrow> p = Branch"
  by (simp add: wake_def)

lemma sound_control:
  assumes "sound s" and "call_inv s" and "control s = Some s'"
  shows "sound s'"
  using assms(3)
proof (cases rule: control_cases)
  case (clean c)
  then show ?thesis by (simp add: sound_def)
next
  case alive
  with assms(2) show ?thesis by (simp add: sound_def call_inv_def call_ok_def)
next
  case (spawn i)
  with assms(1) show ?thesis by (auto simp: sound_def nth_append)
next
  case (started i)
  with assms(1) show ?thesis by (simp add: sound_def)
next
  case (notify sp)
  with assms(1) show ?thesis by (simp add: sound_def)
qed

lemma sound_invoke:
  assumes "sound s" and "invoke rv c s = Some s'"
  shows "sound s'"
  using assms(2) by (cases rule: invoke_cases) (insert assms(1), simp_all add: sound_def)

lemma sound_grow:
  assumes "sound s" and "alive s' = alive s" and "tasks_pool s' = tasks_pool s @ [t]"
    and "threads_pool s' = (threads_pool s)[k := Woken] \<or> threads_pool s' = threads_pool s"
  shows "sound s'"
  unfolding sound_def
proof (intro impI allI)
  fix m
  assume m: "m < length (threads_pool s')"
  from assms(4) m have m': "m < length (threads_pool s)" by auto
  with assms(1) have f: "threads_pool s ! m \<noteq> Faulted" by (simp add: sound_def)
  from assms(4) m' have "threads_pool s' ! m = threads_pool s ! m \<or> threads_pool s' ! m = Woken"
    by (cases "m = k") auto
  with f assms(3) show "threads_pool s' ! m \<noteq> Faulted \<and>
        (threads_pool s' ! m = Branch \<longrightarrow> alive s' \<longrightarrow> tasks_pool s' \<noteq> [])"
    by auto
qed

lemma sound_addTask:
  assumes "sound s" and "addTask rv t j s = Some s'"
  shows "sound s'"
proof -
  from assms(2) have s': "s' = s\<lparr>tasks_pool := tasks_pool s @ [t],
      threads_pool := (if rv \<noteq> Yielding \<and> alive s
                       then notify_one j (threads_pool s) else threads_pool s)\<rparr>"
    by (auto simp: addTask_def split: if_splits)
  show ?thesis
  proof (rule notify_one_cases [of "threads_pool s" j])
    assume "notify_one j (threads_pool s) = threads_pool s"
    with s' have "threads_pool s' = threads_pool s" by simp
    with assms(1) s' show ?thesis by (auto intro: sound_grow)
  next
    fix k
    assume "notify_one j (threads_pool s) = (threads_pool s)[k := Woken]"
    with s' have "threads_pool s' = (threads_pool s)[k := Woken] \<or>
        threads_pool s' = threads_pool s"
      by simp
    with assms(1) s' show ?thesis by (auto intro: sound_grow)
  qed
qed

lemma sound_clear:
  assumes "sound s" and "lock_inv s" and "clear s = Some s'"
  shows "sound s'"
proof -
  from assms(3) have g: "guardian s = None" and s': "s' = s\<lparr>tasks_pool := []\<rparr>"
    by (auto simp: clear_def split: if_splits)
  have "threads_pool s ! i \<noteq> Branch" if "i < length (threads_pool s)" for i
    using lock_inv_free [OF assms(2) g that] by auto
  with assms(1) s' show ?thesis by (simp add: sound_def)
qed

lemma sound_step:
  assumes "sound s" and "pool_inv s" and "step Guarded e s = Some s'"
  shows "sound s'"
proof -
  from assms(2) have l: "lock_inv s" and c: "call_inv s" by (simp_all add: pool_inv_def)
  show ?thesis
  proof (cases e)
    case (Spin i)
    with assms l show ?thesis by (simp add: sound_spin)
  next
    case (Spurious i)
    with assms show ?thesis
      by (auto simp: spurious_Some at_def intro: sound_update)
  next
    case (Invoke c)
    with assms have "invoke Guarded c s = Some s'" by (simp split: if_splits)
    with assms(1) show ?thesis by (rule sound_invoke)
  next
    case Control
    with assms c show ?thesis by (simp add: sound_control)
  next
    case (AddTask t j)
    with assms show ?thesis by (simp add: sound_addTask)
  next
    case Clear
    with assms l show ?thesis by (simp add: sound_clear)
  next
    case Enter_wait
    with assms show ?thesis by (auto simp: enter_wait_def sound_def split: if_splits)
  next
    case Wait
    with assms show ?thesis
      by (auto simp: waitForIdle_def sound_def split: if_splits wait_pc.splits)
  qed
qed

lemma sound_run:
  "sound s \<Longrightarrow> pool_inv s \<Longrightarrow> run Guarded es s = Some s' \<Longrightarrow> sound s'"
proof (induction es arbitrary: s)
  case Nil
  then show ?case by simp
next
  case (Cons e es)
  then obtain u where u: "step Guarded e s = Some u" and r: "run Guarded es u = Some s'"
    by (auto split: option.splits)
  from Cons.prems(2) u have "pool_inv u" by (rule pool_inv_step)
  moreover from Cons.prems(1,2) u have "sound u" by (rule sound_step)
  ultimately show ?case using r by (simp add: Cons.IH)
qed

lemma sound_ThreadPool: "sound (ThreadPool n)"
  by (simp add: sound_def ThreadPool_def)

text \<open>
  part_001: in every state the pool can reach, no worker has called \<^verbatim>\<open>front()\<close> on an
  empty queue, and a worker that finds the flag true after the wait finds a task.
\<close>

lemma guarded_never_faults:
  assumes "run Guarded es (ThreadPool n) = Some s" and "i < length (threads_pool s)"
  shows "threads_pool s ! i \<noteq> Faulted \<and>
         (threads_pool s ! i = Branch \<and> alive s \<longrightarrow> tasks_pool s \<noteq> [])"
  using sound_run [OF sound_ThreadPool pool_inv_ThreadPool assms(1)] assms(2)
  by (simp add: sound_def)

section \<open>Claims after the flag was cleared\<close>

text \<open>
  part_001: while the flag is false no step claims a task and no step of a worker changes
  the queue; a worker that finds the flag false after the wait releases the mutex and goes
  to the loop test, where it exits. In the three revisions a worker exits only at the loop
  test, on finding the flag false.
\<close>

lemma guarded_no_claim_when_down:
  assumes "\<not> alive s"
  shows "claimed Guarded e s = [] \<and>
         (spin Guarded i s = Some s' \<longrightarrow> tasks_pool s' = tasks_pool s)"
proof -
  have "claimed Guarded e s = []"
    using assms by (cases e) (simp_all add: leave_def at_def)
  moreover have "tasks_pool s' = tasks_pool s" if "spin Guarded i s = Some s'"
    using that assms by (cases rule: spinE) (simp_all add: leave_def at_def)
  ultimately show ?thesis by simp
qed

lemma guarded_leaves_when_down:
  assumes "i < length (threads_pool s)" and "\<not> alive s"
  shows "(threads_pool s ! i = Branch \<longrightarrow>
            spin Guarded i s = Some (at i Head (s\<lparr>guardian := None\<rparr>))) \<and>
         (threads_pool s ! i = Head \<longrightarrow> spin rv i s = Some (at i Exited s))"
  using assms by (simp add: spin_def leave_def)

lemma exit_only_at_loop_test:
  assumes "spin rv i s = Some s'" and "threads_pool s' ! i = Exited"
  shows "threads_pool s ! i = Head \<and> \<not> alive s"
  using assms(1)
proof (cases rule: spinE)
  case branch
  with assms(2) show ?thesis
    by (cases rule: branch_cases [of rv i s]) (simp_all add: at_def leave_def)
qed (insert assms(2), simp_all add: at_def split: if_splits)

text \<open>
  While the vector holds a thread the flag cannot go from false to true: \<^verbatim>\<open>start()\<close>
  sets it only after \<^verbatim>\<open>clean_up()\<close> has emptied the vector. So the worker that found
  the flag false after the wait still finds it false at the loop test.
\<close>

lemma flag_stays_false:
  assumes "pool_inv s" and "\<not> alive s" and "threads_pool s \<noteq> []"
    and "step rv e s = Some s'"
  shows "\<not> alive s'"
proof (cases e)
  case (Spin i)
  with assms show ?thesis using spin_frame [of rv i s s'] by simp
next
  case (Spurious i)
  with assms show ?thesis by (simp add: spurious_Some at_def)
next
  case (Invoke c)
  with assms have "invoke rv c s = Some s'" by (simp split: if_splits)
  then show ?thesis using assms(2) by (cases rule: invoke_cases) simp_all
next
  case Control
  with assms have "control s = Some s'" by simp
  then show ?thesis
    using assms(1,2,3)
    by (cases rule: control_cases)
       (simp_all add: pool_inv_def call_inv_def call_ok_def)
next
  case (AddTask t j)
  with assms show ?thesis by (auto simp: addTask_def split: if_splits)
next
  case Clear
  with assms show ?thesis by (auto simp: clear_def split: if_splits)
next
  case Enter_wait
  with assms show ?thesis by (auto simp: enter_wait_def split: if_splits)
next
  case Wait
  with assms show ?thesis by (auto simp: waitForIdle_def split: if_splits wait_pc.splits)
qed

text \<open>
  Claim C1 fails in part_000. Task 7 is queued, the pool of one thread is started, the
  worker passes the loop test, \<^verbatim>\<open>stop(ASYNC)\<close> clears the flag and notifies; the
  worker takes the mutex, the predicate of its wait holds because the flag is false, and at
  \<^verbatim>\<open>if(!tasks_pool_.empty())\<close> it dequeues task 7 although \<^verbatim>\<open>status()\<close> is
  \<^verbatim>\<open>DOWN\<close>. On the same schedule part_001 is at \<^verbatim>\<open>if(alive_)\<close>, leaves task 7
  in the queue and releases the mutex.
\<close>

theorem notifying_claims_after_stop:
  "run Notifying [AddTask 7 0, Invoke Start, Control, Control, Control, Spin 0,
       Invoke (Stop ASYNC), Control, Spin 0, Spin 0] (ThreadPool 1)
     = Some \<lparr>threads_count = 1, tasks_pool = [7], guardian = Some 0,
         threads_pool = [Branch], alive = False, running_tasks_count = 0,
         caller = Idle, waiter = Away\<rparr> \<and>
   status \<lparr>threads_count = 1, tasks_pool = [7], guardian = Some 0,
         threads_pool = [Branch], alive = False, running_tasks_count = 0,
         caller = Idle, waiter = Away\<rparr> = DOWN \<and>
   step Notifying (Spin 0)
       \<lparr>threads_count = 1, tasks_pool = [7], guardian = Some 0,
         threads_pool = [Branch], alive = False, running_tasks_count = 0,
         caller = Idle, waiter = Away\<rparr>
     = Some \<lparr>threads_count = 1, tasks_pool = [], guardian = None,
         threads_pool = [Claimed 7], alive = False, running_tasks_count = 0,
         caller = Idle, waiter = Away\<rparr> \<and>
   claimed Notifying (Spin 0)
       \<lparr>threads_count = 1, tasks_pool = [7], guardian = Some 0,
         threads_pool = [Branch], alive = False, running_tasks_count = 0,
         caller = Idle, waiter = Away\<rparr> = [7] \<and>
   run Guarded [AddTask 7 0, Invoke Start, Control, Control, Control, Spin 0,
       Invoke (Stop ASYNC), Control, Spin 0, Spin 0, Spin 0] (ThreadPool 1)
     = Some \<lparr>threads_count = 1, tasks_pool = [7], guardian = None,
         threads_pool = [Head], alive = False, running_tasks_count = 0,
         caller = Idle, waiter = Away\<rparr>"
  by (simp add: ThreadPool_def step_defs status_def)

text \<open>
  thread_pool.cpp tests the flag at the loop test only: a worker that passes the test
  before \<^verbatim>\<open>stop\<close> clears the flag takes the mutex afterwards and dequeues.
\<close>

lemma yielding_claims_after_stop:
  "run Yielding [AddTask 7 0, Invoke Start, Control, Control, Control, Spin 0,
       Invoke (Stop ASYNC), Spin 0] (ThreadPool 1)
     = Some \<lparr>threads_count = 1, tasks_pool = [7], guardian = Some 0,
         threads_pool = [Branch], alive = False, running_tasks_count = 0,
         caller = Idle, waiter = Away\<rparr> \<and>
   claimed Yielding (Spin 0)
       \<lparr>threads_count = 1, tasks_pool = [7], guardian = Some 0,
         threads_pool = [Branch], alive = False, running_tasks_count = 0,
         caller = Idle, waiter = Away\<rparr> = [7]"
  by (simp add: ThreadPool_def step_defs)

section \<open>Stopping and the condition variable\<close>

text \<open>
  In the three revisions \<^verbatim>\<open>stop\<close> clears the flag, and where it notifies
  (part_000, part_001) the notification unblocks every worker that is blocked in the
  condition variable at that moment.
\<close>

lemma stop_clears_and_notifies:
  "(step rv (Invoke (Stop sp)) s = Some s' \<longrightarrow> \<not> alive s') \<and>
   (caller s = Stop_notify sp \<longrightarrow>
      control s = Some (s\<lparr>threads_pool := notify_all (threads_pool s),
                          caller := after_flag sp s\<rparr>) \<and>
      parked (notify_all (threads_pool s)) = [] \<and>
      (\<forall>i < length (threads_pool s).
         threads_pool s ! i = Parked \<longrightarrow> notify_all (threads_pool s) ! i = Woken))"
proof -
  have "\<not> alive s'" if "step rv (Invoke (Stop sp)) s = Some s'"
    using that by (cases rv) (auto split: if_splits)
  moreover have "parked (notify_all (threads_pool s)) = []"
    by (simp add: parked_def filter_empty_conv)
  ultimately show ?thesis
    by (auto simp: control_def wake_def)
qed

text \<open>
  part_000: once a worker is blocked in the condition variable with the flag false and
  \<^verbatim>\<open>stop(SYNC)\<close> waiting in \<^verbatim>\<open>join\<close>, it stays blocked on every schedule without a
  spurious wake-up: \<^verbatim>\<open>addTask\<close> does not notify when the flag is false, the worker
  and \<^verbatim>\<open>join\<close> wait for each other, and no other call can be entered.
\<close>

lemma notifying_stuck_step:
  assumes "step Notifying e s = Some s'" and "\<forall>i. e \<noteq> Spurious i"
    and "threads_pool s = [Parked]" and "\<not> alive s" and "caller s = Stop_clean"
  shows "threads_pool s' = [Parked] \<and> \<not> alive s' \<and> caller s' = Stop_clean"
proof (cases e)
  case (Spin i)
  with assms show ?thesis by (cases i) (simp_all add: spin_def)
next
  case (Spurious i)
  with assms show ?thesis by simp
next
  case (Invoke c)
  with assms show ?thesis by simp
next
  case Control
  with assms show ?thesis by (simp add: control_def clean_up_def)
next
  case (AddTask t j)
  with assms show ?thesis by (auto simp: addTask_def split: if_splits)
next
  case Clear
  with assms show ?thesis by (auto simp: clear_def split: if_splits)
next
  case Enter_wait
  with assms show ?thesis by (auto simp: enter_wait_def split: if_splits)
next
  case Wait
  with assms show ?thesis by (auto simp: waitForIdle_def split: if_splits wait_pc.splits)
qed

lemma notifying_parked_forever:
  "run Notifying es s = Some s' \<Longrightarrow> \<forall>i. Spurious i \<notin> set es \<Longrightarrow>
   threads_pool s = [Parked] \<Longrightarrow> \<not> alive s \<Longrightarrow> caller s = Stop_clean \<Longrightarrow>
   threads_pool s' = [Parked] \<and> \<not> alive s' \<and> caller s' = Stop_clean"
proof (induction es arbitrary: s)
  case Nil
  then show ?case by simp
next
  case (Cons e es)
  then obtain u where u: "step Notifying e s = Some u" and r: "run Notifying es u = Some s'"
    by (auto split: option.splits)
  from Cons.prems(2) have e: "\<forall>i. e \<noteq> Spurious i" and es: "\<forall>i. Spurious i \<notin> set es"
    by auto
  from notifying_stuck_step [OF u e Cons.prems(3,4,5)]
  have "threads_pool u = [Parked]" "\<not> alive u" "caller u = Stop_clean" by simp_all
  with r es show ?case by (rule Cons.IH)
qed

text \<open>
  Claim C5 fails in part_000. The pool of one thread is started, the worker takes the
  mutex and finds the predicate of its wait false; \<^verbatim>\<open>stop(SYNC)\<close> clears the flag
  without the mutex and notifies while nobody is blocked yet; then the worker blocks. It
  is blocked with the flag false and \<^verbatim>\<open>stop\<close> waits in \<^verbatim>\<open>join\<close>: neither can
  take a step. In part_001 \<^verbatim>\<open>stop\<close> cannot be entered at that point, because the
  worker holds the mutex.
\<close>

theorem notifying_stop_misses_worker:
  "run Notifying [Invoke Start, Control, Control, Control, Spin 0, Spin 0, Spin 0,
       Invoke (Stop SYNC), Control, Spin 0] (ThreadPool 1)
     = Some \<lparr>threads_count = 1, tasks_pool = [], guardian = None,
         threads_pool = [Parked], alive = False, running_tasks_count = 0,
         caller = Stop_clean, waiter = Away\<rparr> \<and>
   step Notifying (Spin 0)
       \<lparr>threads_count = 1, tasks_pool = [], guardian = None,
         threads_pool = [Parked], alive = False, running_tasks_count = 0,
         caller = Stop_clean, waiter = Away\<rparr> = None \<and>
   step Notifying Control
       \<lparr>threads_count = 1, tasks_pool = [], guardian = None,
         threads_pool = [Parked], alive = False, running_tasks_count = 0,
         caller = Stop_clean, waiter = Away\<rparr> = None \<and>
   run Guarded [Invoke Start, Control, Control, Control, Spin 0, Spin 0, Spin 0,
       Invoke (Stop SYNC)] (ThreadPool 1) = None"
  by (simp add: ThreadPool_def step_defs)

end
